theory Spec2Isabelle
  imports Complex_Main "HOL-Library.Sublist"
begin

section \<open>Strings and number formatting\<close>

text \<open>
  Python's \<^verbatim>\<open>str.startswith\<close> and \<^verbatim>\<open>str.endswith\<close>, written so that they compute
  on concrete names.
\<close>

definition startswith :: "string \<Rightarrow> string \<Rightarrow> bool" where
  "startswith s p = (take (length p) s = p)"

definition endswith :: "string \<Rightarrow> string \<Rightarrow> bool" where
  "endswith s e = (length e \<le> length s \<and> drop (length s - length e) s = e)"

text \<open>Decimal digits of a natural number, as \<^verbatim>\<open>str(n)\<close> and the \<^verbatim>\<open>d\<close> format produce them.\<close>

definition digit_char :: "nat \<Rightarrow> char" where
  "digit_char d = ''0123456789'' ! d"

fun dec :: "nat \<Rightarrow> string" where
  "dec n = (if n < 10 then [digit_char n] else dec (n div 10) @ [digit_char (n mod 10)])"

declare dec.simps [simp del]

text \<open>The format \<^verbatim>\<open>{i:04d}\<close>: decimal digits, padded on the left with zeros to width 4.\<close>

definition fmt04d :: "nat \<Rightarrow> string" where
  "fmt04d i = replicate (4 - length (dec i)) (CHR ''0'') @ dec i"

text \<open>\<^verbatim>\<open>new_name = f"{i:04d}.jpg"\<close>\<close>

definition new_name :: "nat \<Rightarrow> string" where
  "new_name i = fmt04d i @ ''.jpg''"

section \<open>The directory and the operating-system calls\<close>

text \<open>
  A directory entry carries the modification time that \<^verbatim>\<open>os.path.getmtime\<close> reports
  (a float; only its order is used, so it is a real number here) and the file's content.
  The directory is a map from names to entries. The listing that \<^verbatim>\<open>os.scandir\<close> hands to
  \<^verbatim>\<open>glob\<close> is a separate list of names, since its order is up to the operating system.
\<close>

record entry =
  mtime :: real
  content :: string

type_synonym fs = "string \<rightharpoonup> entry"

definition listing :: "string list \<Rightarrow> fs \<Rightarrow> bool" where
  "listing names d = (distinct names \<and> set names = dom d)"

text \<open>An \<^verbatim>\<open>OSError\<close>; the string is what \<^verbatim>\<open>str(e)\<close> gives.\<close>

datatype exn = OSError string

fun str_exn :: "exn \<Rightarrow> string" where
  "str_exn (OSError m) = m"

definition enoent :: "string \<Rightarrow> string" where
  "enoent name = ''[Errno 2] No such file or directory: '' @ [CHR 0x27] @ name @ [CHR 0x27]"

definition os_path_getmtime :: "fs \<Rightarrow> string \<Rightarrow> exn + real" where
  "os_path_getmtime d name =
     (case d name of None \<Rightarrow> Inl (OSError (enoent name)) | Some f \<Rightarrow> Inr (mtime f))"

definition os_path_exists :: "fs \<Rightarrow> string \<Rightarrow> bool" where
  "os_path_exists d name = (d name \<noteq> None)"

text \<open>
  \<^verbatim>\<open>os.rename(old, new)\<close>. The operating system may refuse a rename (permissions, a
  file in use): \<open>refuse old new\<close> is then the exception raised. Otherwise a missing source
  raises, and an existing source is moved to the new name, replacing whatever was there
  (the POSIX behaviour).
\<close>

type_synonym env = "string \<Rightarrow> string \<Rightarrow> exn option"

definition os_rename :: "env \<Rightarrow> fs \<Rightarrow> string \<Rightarrow> string \<Rightarrow> exn + fs" where
  "os_rename refuse d old new =
     (case refuse old new of
        Some e \<Rightarrow> Inl e
      | None \<Rightarrow>
          (case d old of
             None \<Rightarrow> Inl (OSError (enoent old @ '' -> '' @ [CHR 0x27] @ new @ [CHR 0x27]))
           | Some f \<Rightarrow> Inr ((d(old := None))(new \<mapsto> f))))"

text \<open>
  \<^verbatim>\<open>glob.glob('*' + ext)\<close> in the current directory, where \<^verbatim>\<open>os.path\<close> is
  \<^verbatim>\<open>posixpath\<close>: \<^verbatim>\<open>glob\<close> drops the names that start with a dot, and
  \<^verbatim>\<open>fnmatch.filter\<close> keeps, in listing order, the names the pattern matches, compared
  character by character.
\<close>

definition ishidden :: "string \<Rightarrow> bool" where
  "ishidden name = (case name of [] \<Rightarrow> False | c # _ \<Rightarrow> c = CHR ''.'')"

definition glob_star :: "string \<Rightarrow> string list \<Rightarrow> string list" where
  "glob_star ext names = filter (\<lambda>n. \<not> ishidden n \<and> endswith n ext) names"

section \<open>pictures/rename\_by\_age.py\<close>

text \<open>
  \<^verbatim>\<open>jpg_files = glob.glob('*.jpg') + glob.glob('*.JPG') + glob.glob('*.jpeg') + glob.glob('*.JPEG')\<close>
\<close>

definition jpg_files :: "string list \<Rightarrow> string list" where
  "jpg_files names =
     glob_star ''.jpg'' names @ glob_star ''.JPG'' names @
     glob_star ''.jpeg'' names @ glob_star ''.JPEG'' names"

text \<open>
  The loop that builds \<^verbatim>\<open>file_info\<close>: names starting with \<^verbatim>\<open>'0'\<close> are skipped, the others
  are paired with their modification time. An exception of \<^verbatim>\<open>getmtime\<close> is not handled by
  the source and ends the run.
\<close>

fun collect_info :: "fs \<Rightarrow> string list \<Rightarrow> exn + (string \<times> real) list" where
  "collect_info d [] = Inr []"
| "collect_info d (f # rest) =
     (if \<not> startswith f ''0'' then
        (case os_path_getmtime d f of
           Inl e \<Rightarrow> Inl e
         | Inr m \<Rightarrow>
             (case collect_info d rest of
                Inl e \<Rightarrow> Inl e
              | Inr info \<Rightarrow> Inr ((f, m) # info)))
      else collect_info d rest)"

text \<open>
  \<^verbatim>\<open>file_info.sort(key=lambda x: x[1], reverse=True)\<close>: Python's sort is stable, and with
  \<^verbatim>\<open>reverse=True\<close> elements with equal keys keep their original order.
\<close>

definition sort_newest_first :: "(string \<times> real) list \<Rightarrow> (string \<times> real) list" where
  "sort_newest_first info = rev (sort_key snd (rev info))"

definition msg_warning :: "string \<Rightarrow> string \<Rightarrow> string" where
  "msg_warning new old = ''Warning: '' @ new @ '' already exists, skipping '' @ old"

definition msg_renamed :: "string \<Rightarrow> string \<Rightarrow> string" where
  "msg_renamed old new = ''Renamed: '' @ old @ '' -> '' @ new"

definition msg_error :: "string \<Rightarrow> exn \<Rightarrow> string" where
  "msg_error old e = ''Error renaming '' @ old @ '': '' @ str_exn e"

text \<open>
  The renaming loop, \<^verbatim>\<open>for i, (old_name, _) in enumerate(file_info)\<close>, started at index
  \<open>i\<close>. It returns the directory after the loop and the lines printed, one per
  \<^verbatim>\<open>print\<close> call.
\<close>

fun rename_loop :: "env \<Rightarrow> fs \<Rightarrow> nat \<Rightarrow> (string \<times> real) list \<Rightarrow> fs \<times> string list" where
  "rename_loop refuse d i [] = (d, [])"
| "rename_loop refuse d i ((old_name, m) # rest) =
     (if os_path_exists d (new_name i) then
        (case rename_loop refuse d (Suc i) rest of
           (d', out) \<Rightarrow> (d', msg_warning (new_name i) old_name # out))
      else
        (case os_rename refuse d old_name (new_name i) of
           Inr d1 \<Rightarrow>
             (case rename_loop refuse d1 (Suc i) rest of
                (d', out) \<Rightarrow> (d', msg_renamed old_name (new_name i) # out))
         | Inl e \<Rightarrow>
             (case rename_loop refuse d (Suc i) rest of
                (d', out) \<Rightarrow> (d', msg_error old_name e # out))))"

definition msg_no_jpg :: string where
  "msg_no_jpg = ''No JPG files found in current directory''"

definition msg_nothing :: string where
  "msg_nothing = ''No files to rename (all files already renamed or no valid files)''"

definition msg_summary :: "nat \<Rightarrow> string" where
  "msg_summary n = [CHR 0x0A] @ ''Renamed '' @ dec n @ '' files successfully''"

text \<open>
  \<^verbatim>\<open>file_info\<close> as the source has it before sorting: the candidates of the run.
\<close>

definition file_info :: "string list \<Rightarrow> fs \<Rightarrow> exn + (string \<times> real) list" where
  "file_info names d = collect_info d (jpg_files names)"

text \<open>
  \<^verbatim>\<open>rename_images_by_age()\<close>, run in a directory \<open>d\<close> that the operating system lists as
  \<open>names\<close>. The result is the exception that ended the run, or the directory after the
  run with the lines printed.
\<close>

definition rename_images_by_age :: "env \<Rightarrow> string list \<Rightarrow> fs \<Rightarrow> exn + (fs \<times> string list)" where
  "rename_images_by_age refuse names d =
     (if jpg_files names = [] then Inr (d, [msg_no_jpg])
      else
        (case file_info names d of
           Inl e \<Rightarrow> Inl e
         | Inr info \<Rightarrow>
             if info = [] then Inr (d, [msg_nothing])
             else
               (case rename_loop refuse d 0 (sort_newest_first info) of
                  (d', out) \<Rightarrow> Inr (d', out @ [msg_summary (length info)]))))"

text \<open>
  One iteration of the renaming loop, isolated: the directory after the iteration and the
  line it prints. \<open>rename_loop_Cons\<close> below shows that the loop is its iteration.
\<close>

definition rename_step :: "env \<Rightarrow> fs \<Rightarrow> nat \<Rightarrow> string \<Rightarrow> fs \<times> string" where
  "rename_step refuse d i old_name =
     (if os_path_exists d (new_name i) then (d, msg_warning (new_name i) old_name)
      else
        (case os_rename refuse d old_name (new_name i) of
           Inr d1 \<Rightarrow> (d1, msg_renamed old_name (new_name i))
         | Inl e \<Rightarrow> (d, msg_error old_name e)))"

section \<open>Example directories\<close>

text \<open>A directory given by its names and modification times.\<close>

definition dir_of :: "(string \<times> real) list \<Rightarrow> fs" where
  "dir_of xs = map_of (map (\<lambda>(n, t). (n, \<lparr>mtime = t, content = ''data of '' @ n\<rparr>)) xs)"

text \<open>
  Three photos and a file left by an earlier run. The operating system refuses to rename
  \<^verbatim>\<open>c.jpeg\<close>.
\<close>

definition ex_names :: "string list" where
  "ex_names = [''c.jpeg'', ''0001.jpg'', ''a.jpg'', ''b.JPG'']"

definition ex_dir :: fs where
  "ex_dir = dir_of [(''a.jpg'', 3), (''b.JPG'', 2), (''c.jpeg'', 1), (''0001.jpg'', 0)]"

definition ex_refuse :: env where
  "ex_refuse old new =
     (if old = ''c.jpeg'' then Some (OSError ''[Errno 13] Permission denied'') else None)"

text \<open>A directory in which an earlier run has renamed everything.\<close>

definition done_names :: "string list" where
  "done_names = [''0001.jpg'', ''notes.txt'', ''0000.jpg'']"

definition done_dir :: fs where
  "done_dir = dir_of [(''0000.jpg'', 2), (''0001.jpg'', 1), (''notes.txt'', 5)]"

section \<open>The selection rule as the specification words it\<close>




text \<open>An operating system that refuses no rename.\<close>

definition refuse_nothing :: env where
  "refuse_nothing old new = None"

section \<open>The launchers: run.py, play\_latest.py, play\_story\_choice.py\<close>


datatype input_result = Line string | EOFError | KeyboardInterrupt



text \<open>
  A story file is its path and its \<^verbatim>\<open>st_mtime\<close>. The directory \<^verbatim>\<open>stories\<close> is \<open>None\<close> when
  it does not exist, and otherwise its entries in the order \<^verbatim>\<open>Path.glob\<close> visits them.
  \<^verbatim>\<open>Path.glob("*.json")\<close> keeps the names that end in \<^verbatim>\<open>.json\<close>.
\<close>

type_synonym story = "string \<times> real"

definition get_all_stories :: "story list option \<Rightarrow> story list" where
  "get_all_stories stories_dir =
     (case stories_dir of
        None \<Rightarrow> []
      | Some entries \<Rightarrow>
          (let story_files = filter (\<lambda>s. endswith (fst s) ''.json'') entries
           in if story_files = [] then [] else sort_newest_first story_files))"

text \<open>\<^verbatim>\<open>str.strip()\<close> on ASCII text.\<close>

definition isspace :: "char \<Rightarrow> bool" where
  "isspace c = (c \<in> set [CHR '' '', CHR 0x09, CHR 0x0A, CHR 0x0B, CHR 0x0C, CHR 0x0D,
                          CHR 0x1C, CHR 0x1D, CHR 0x1E, CHR 0x1F])"

definition strip :: "string \<Rightarrow> string" where
  "strip s = rev (dropWhile isspace (rev (dropWhile isspace s)))"

text \<open>
  The loop \<^verbatim>\<open>while True\<close> that reads the choice. The answers the user will give are a
  list; when it is used up, \<^verbatim>\<open>input\<close> raises \<^verbatim>\<open>EOFError\<close>. \<open>py_int\<close> is Python's \<^verbatim>\<open>int\<close> on
  strings, \<open>None\<close> for \<^verbatim>\<open>ValueError\<close>. The result is the story selected, or \<open>None\<close> when the
  source calls \<^verbatim>\<open>sys.exit(0)\<close>.
\<close>

fun choose_story :: "(string \<Rightarrow> int option) \<Rightarrow> story list \<Rightarrow> input_result list \<Rightarrow> story option" where
  "choose_story py_int available_stories [] = None"
| "choose_story py_int available_stories (EOFError # rest) = None"
| "choose_story py_int available_stories (KeyboardInterrupt # rest) = None"
| "choose_story py_int available_stories (Line l # rest) =
     (case py_int (strip l) of
        None \<Rightarrow> choose_story py_int available_stories rest
      | Some choice_num \<Rightarrow>
          if 1 \<le> choice_num \<and> choice_num \<le> int (length available_stories)
          then Some (available_stories ! nat (choice_num - 1))
          else choose_story py_int available_stories rest)"

text \<open>
  \<^verbatim>\<open>available_stories = stories[:-1] if len(stories) > 1 else stories\<close>
\<close>

definition available_stories :: "story list \<Rightarrow> story list" where
  "available_stories stories = (if length stories > 1 then butlast stories else stories)"

text \<open>
  \<^verbatim>\<open>main\<close> of play\_story\_choice.py from the comment \<^verbatim>\<open># Get all stories\<close> to the launch:
  either the launcher exits with a status, or it hands a story to the interpreter.
\<close>

datatype outcome = Exit int | Play string

definition play_story_choice_main ::
    "(string \<Rightarrow> int option) \<Rightarrow> story list option \<Rightarrow> input_result list \<Rightarrow> outcome" where
  "play_story_choice_main py_int stories_dir inputs =
     (let stories = get_all_stories stories_dir in
      if stories = [] then Exit 1
      else if available_stories stories = [] then Exit 1
      else
        (case choose_story py_int (available_stories stories) inputs of
           None \<Rightarrow> Exit 0
         | Some selected_story \<Rightarrow> Play (fst selected_story)))"

text \<open>Two stories, and a parser that knows the answers 1 and 2.\<close>

definition ex_stories :: "story list" where
  "ex_stories = [(''stories/old.json'', 1), (''stories/new.json'', 2), (''stories/readme.md'', 3)]"

definition ex_int :: "string \<Rightarrow> int option" where
  "ex_int s = (if s = ''1'' then Some 1 else if s = ''2'' then Some 2 else None)"

definition one_story :: "story list" where
  "one_story = [(''stories/only.json'', 7)]"

section \<open>Notions used to state the claims\<close>

text \<open>
  Reading a decimal numeral back, as \<^verbatim>\<open>int\<close> does on a string of ASCII digits. It is
  used to show that different ranks get different target names.
\<close>

definition digit_val :: "char \<Rightarrow> nat" where
  "digit_val c = of_char c - 48"

definition undec :: "string \<Rightarrow> nat" where
  "undec s = foldl (\<lambda>a c. 10 * a + digit_val c) 0 s"

text \<open>
  The directory as iteration \<open>k\<close> of the renaming loop finds it, the loop running over the
  sorted candidates \<open>cs\<close> from the directory \<open>d\<close>.
\<close>

definition state_before :: "env \<Rightarrow> fs \<Rightarrow> (string \<times> real) list \<Rightarrow> nat \<Rightarrow> fs" where
  "state_before refuse d cs k = fst (rename_loop refuse d 0 (take k cs))"

text \<open>
  The directory \<open>d'\<close> holds the entries of \<open>d\<close>, each once, under names that may have
  changed: no entry is lost, no entry takes the place of another, none appears from nothing.
\<close>

definition renamed_copy :: "fs \<Rightarrow> fs \<Rightarrow> bool" where
  "renamed_copy d d' =
     (\<exists>r. inj_on r (dom d) \<and> dom d' = r ` dom d \<and> (\<forall>n\<in>dom d. d' (r n) = d n))"

text \<open>The example directory after the run: only \<^verbatim>\<open>a.jpg\<close> has moved.\<close>

definition ex_after :: fs where
  "ex_after =
     (dir_of [(''b.JPG'', 2), (''c.jpeg'', 1), (''0001.jpg'', 0)])
       (''0000.jpg'' \<mapsto> \<lparr>mtime = 3, content = ''data of a.jpg''\<rparr>)"



text \<open>A directory of 1001 photos \<^verbatim>\<open>img0.jpg\<close>, \<^verbatim>\<open>img1.jpg\<close>, ..., each newer than the one before.\<close>

definition photo :: "nat \<Rightarrow> string" where
  "photo k = ''img'' @ dec k @ ''.jpg''"

definition big_names :: "string list" where
  "big_names = map photo [0..<1001]"

definition big_dir :: fs where
  "big_dir = dir_of (map (\<lambda>k. (photo k, real k)) [0..<1001])"

section \<open>Basic facts\<close>

lemma rename_loop_Cons:
  "rename_loop refuse d i (c # rest) =
     (fst (rename_loop refuse (fst (rename_step refuse d i (fst c))) (Suc i) rest),
      snd (rename_step refuse d i (fst c)) #
      snd (rename_loop refuse (fst (rename_step refuse d i (fst c))) (Suc i) rest))"
  by (cases c) (simp add: rename_step_def split_beta split: sum.splits)

lemma length_rename_loop:
  "length (snd (rename_loop refuse d i cs)) = length cs"
  by (induction cs arbitrary: d i) (simp_all add: rename_loop_Cons)

lemma rename_loop_append:
  "rename_loop refuse d i (xs @ ys) =
     (fst (rename_loop refuse (fst (rename_loop refuse d i xs)) (i + length xs) ys),
      snd (rename_loop refuse d i xs) @
      snd (rename_loop refuse (fst (rename_loop refuse d i xs)) (i + length xs) ys))"
proof (induction xs arbitrary: d i)
  case Nil
  show ?case by simp
next
  case (Cons c xs)
  show ?case
    by (simp add: rename_loop_Cons [of _ _ _ c] Cons.IH)
qed

lemma collect_info_all_skipped:
  "\<forall>n\<in>set xs. startswith n ''0'' \<Longrightarrow> collect_info d xs = Inr []"
  by (induction xs) auto

lemma collect_info_Inr:
  "set xs \<subseteq> dom d \<Longrightarrow>
   collect_info d xs =
     Inr (map (\<lambda>n. (n, mtime (the (d n)))) (filter (\<lambda>n. \<not> startswith n ''0'') xs))"
  by (induction xs) (auto simp: os_path_getmtime_def)

lemma collect_info_names:
  "collect_info d xs = Inr info \<Longrightarrow> map fst info = filter (\<lambda>n. \<not> startswith n ''0'') xs"
  by (induction xs arbitrary: info) (auto split: if_splits sum.splits)

lemma set_jpg_files:
  "set (jpg_files names) =
     {n \<in> set names. \<not> ishidden n \<and>
        (endswith n ''.jpg'' \<or> endswith n ''.JPG'' \<or> endswith n ''.jpeg'' \<or> endswith n ''.JPEG'')}"
  by (auto simp: jpg_files_def glob_star_def)

lemma length_sort_newest_first: "length (sort_newest_first info) = length info"
  by (simp add: sort_newest_first_def)

lemma set_sort_newest_first: "set (sort_newest_first info) = set info"
  by (simp add: sort_newest_first_def)

lemma run_no_candidates:
  assumes "\<forall>n\<in>set (jpg_files names). startswith n ''0''"
  shows "rename_images_by_age refuse names d =
           Inr (d, [if jpg_files names = [] then msg_no_jpg else msg_nothing])"
  using collect_info_all_skipped [OF assms, of d]
  by (simp add: rename_images_by_age_def file_info_def)

lemma run_with_candidates:
  assumes "file_info names d = Inr info" and "info \<noteq> []"
  shows "rename_images_by_age refuse names d =
           Inr (fst (rename_loop refuse d 0 (sort_newest_first info)),
                snd (rename_loop refuse d 0 (sort_newest_first info)) @ [msg_summary (length info)])"
proof -
  from assms have "jpg_files names \<noteq> []"
    by (auto simp: file_info_def)
  with assms show ?thesis
    by (simp add: rename_images_by_age_def split: prod.splits)
qed

lemma file_info_empty_iff:
  "file_info names d = Inr [] \<longleftrightarrow> (\<forall>n\<in>set (jpg_files names). startswith n ''0'')"
proof
  assume "file_info names d = Inr []"
  then have "filter (\<lambda>n. \<not> startswith n ''0'') (jpg_files names) = []"
    using collect_info_names [of d "jpg_files names" "[]"] by (simp add: file_info_def)
  then show "\<forall>n\<in>set (jpg_files names). startswith n ''0''"
    by (simp add: filter_empty_conv)
next
  assume "\<forall>n\<in>set (jpg_files names). startswith n ''0''"
  then show "file_info names d = Inr []"
    by (simp add: file_info_def collect_info_all_skipped)
qed

text \<open>Evaluation of the examples.\<close>

lemmas eval_glob = jpg_files_def glob_star_def ishidden_def endswith_def startswith_def

lemmas eval_os = os_path_getmtime_def os_path_exists_def os_rename_def dir_of_def

lemma new_name_small:
  "new_name 0 = ''0000.jpg''"
  "new_name (Suc 0) = ''0001.jpg''"
  "new_name (Suc (Suc 0)) = ''0002.jpg''"
  by (simp_all add: new_name_def fmt04d_def dec.simps digit_char_def numeral_eq_Suc)

lemma ex_file_info:
  "file_info ex_names ex_dir = Inr [(''a.jpg'', 3), (''b.JPG'', 2), (''c.jpeg'', 1)]"
  by (simp add: file_info_def ex_names_def ex_dir_def eval_glob eval_os)

lemma done_jpg_files: "jpg_files done_names = [''0001.jpg'', ''0000.jpg'']"
  by (simp add: done_names_def eval_glob)

subsection \<open>What the loop leaves alone\<close>

lemma rename_step_keeps:
  "d n = Some f \<Longrightarrow> n \<noteq> old \<Longrightarrow> fst (rename_step refuse d i old) n = Some f"
  by (auto simp: rename_step_def os_path_exists_def os_rename_def split: option.splits)

lemma rename_loop_keeps:
  "d n = Some f \<Longrightarrow> n \<notin> fst ` set cs \<Longrightarrow> fst (rename_loop refuse d i cs) n = Some f"
  by (induction cs arbitrary: d i) (simp_all add: rename_loop_Cons rename_step_keeps)

lemma file_info_names:
  assumes "file_info names d = Inr info"
  shows "fst ` set info = {n \<in> set (jpg_files names). \<not> startswith n ''0''}"
proof -
  have "set (map fst info) = set (filter (\<lambda>n. \<not> startswith n ''0'') (jpg_files names))"
    using collect_info_names [of d "jpg_files names" info] assms by (simp add: file_info_def)
  then show ?thesis by simp
qed

lemma file_info_total:
  assumes "set names \<subseteq> dom d"
  shows "\<exists>info. file_info names d = Inr info"
proof -
  have "set (jpg_files names) \<subseteq> dom d"
    using assms by (auto simp: set_jpg_files)
  then show ?thesis
    by (simp add: file_info_def collect_info_Inr)
qed

lemma run_keeps_non_source:
  assumes run: "rename_images_by_age refuse names d = Inr (d', out)"
    and n: "d n = Some f" and ns: "n \<notin> {m \<in> set (jpg_files names). \<not> startswith m ''0''}"
  shows "d' n = Some f"
proof (cases "jpg_files names = []")
  case True
  with run n show ?thesis by (simp add: rename_images_by_age_def)
next
  case False
  with run obtain info where info: "file_info names d = Inr info"
    by (auto simp: rename_images_by_age_def split: sum.splits)
  show ?thesis
  proof (cases "info = []")
    case True
    with run info False n show ?thesis by (simp add: rename_images_by_age_def)
  next
    case False
    with run info have d': "d' = fst (rename_loop refuse d 0 (sort_newest_first info))"
      by (simp add: run_with_candidates)
    have "n \<notin> fst ` set (sort_newest_first info)"
      using ns file_info_names [OF info] by (simp add: set_sort_newest_first)
    with n show ?thesis
      unfolding d' by (rule rename_loop_keeps)
  qed
qed

subsection \<open>The newest-first order and the story launcher\<close>

lemma sort_newest_first_descending:
  "sorted_wrt (\<lambda>a b. snd b \<le> snd a) (sort_newest_first info)"
proof -
  have "sorted (map snd (sort_key snd (rev info)))"
    by (rule sorted_sort_key)
  then have "sorted_wrt (\<lambda>a b. snd a \<le> snd b) (sort_key snd (rev info))"
    by (simp add: sorted_map)
  then show ?thesis
    by (simp add: sort_newest_first_def sorted_wrt_rev)
qed

lemma distinct_sort_newest_first: "distinct (sort_newest_first info) = distinct info"
  by (simp add: sort_newest_first_def)

lemma distinct_map_sort_newest_first:
  "distinct (map f (sort_newest_first info)) = distinct (map f info)"
  by (simp add: sort_newest_first_def distinct_map)

lemma sort_newest_first_last_oldest:
  assumes "s \<in> set info"
  shows "snd (last (sort_newest_first info)) \<le> snd s"
proof -
  let ?ys = "sort_newest_first info"
  from assms have s: "s \<in> set ?ys"
    by (simp add: set_sort_newest_first)
  then have ne: "?ys \<noteq> []"
    by auto
  from s obtain i where i: "i < length ?ys" "?ys ! i = s"
    by (auto simp: in_set_conv_nth)
  show ?thesis
  proof (cases "i = length ?ys - 1")
    case True
    with i ne show ?thesis by (simp add: last_conv_nth)
  next
    case False
    with i have "i < length ?ys - 1" "length ?ys - 1 < length ?ys"
      by auto
    then have "snd (?ys ! (length ?ys - 1)) \<le> snd (?ys ! i)"
      using sorted_wrt_nth_less [OF sort_newest_first_descending [of info], of i "length ?ys - 1"]
      by simp
    with i ne show ?thesis by (simp add: last_conv_nth)
  qed
qed

lemma choose_story_in_available:
  "choose_story py_int av inputs = Some s \<Longrightarrow> s \<in> set av"
  by (induction py_int av inputs rule: choose_story.induct)
     (auto split: option.splits if_splits)

lemma get_all_stories_Some:
  "get_all_stories (Some entries) =
     sort_newest_first (filter (\<lambda>s. endswith (fst s) ''.json'') entries)"
  by (simp add: get_all_stories_def Let_def sort_newest_first_def)

lemma last_notin_butlast:
  assumes "distinct xs" and "xs \<noteq> []"
  shows "last xs \<notin> set (butlast xs)"
proof -
  from assms(2) have "xs = butlast xs @ [last xs]"
    by simp
  with assms(1) have "distinct (butlast xs @ [last xs])"
    by simp
  then show ?thesis
    by simp
qed

lemma set_butlast_distinct:
  assumes "distinct xs" and "xs \<noteq> []"
  shows "set (butlast xs) = set xs - {last xs}"
proof -
  from assms(2) have "set xs = set (butlast xs @ [last xs])"
    by simp
  then have "set xs = insert (last xs) (set (butlast xs))"
    by simp
  with last_notin_butlast [OF assms] show ?thesis
    by auto
qed

lemma ex_get_all_stories:
  "get_all_stories (Some ex_stories) = [(''stories/new.json'', 2), (''stories/old.json'', 1)]"
  by (simp add: get_all_stories_Some ex_stories_def endswith_def sort_newest_first_def)

lemma one_get_all_stories:
  "get_all_stories (Some one_story) = [(''stories/only.json'', 7)]"
  by (simp add: get_all_stories_Some one_story_def endswith_def sort_newest_first_def)

subsection \<open>Target names\<close>

lemma lt10_cases:
  "d < 10 \<Longrightarrow> d = 0 \<or> d = 1 \<or> d = 2 \<or> d = 3 \<or> d = 4 \<or> d = 5 \<or> d = 6 \<or> d = 7 \<or> d = 8 \<or> d = (9::nat)"
  by arith

lemma digit_val_digit_char: "d < 10 \<Longrightarrow> digit_val (digit_char d) = d"
  using lt10_cases [of d] by (auto simp: digit_char_def digit_val_def)

lemma digit_char_zero_iff: "d < 10 \<Longrightarrow> digit_char d = CHR ''0'' \<longleftrightarrow> d = 0"
  using lt10_cases [of d] by (auto simp: digit_char_def)

lemma undec_snoc: "undec (s @ [c]) = 10 * undec s + digit_val c"
  by (simp add: undec_def)

lemma undec_dec: "undec (dec n) = n"
proof (induction n rule: dec.induct)
  case (1 n)
  show ?case
  proof (cases "n < 10")
    case True
    then show ?thesis
      by (subst dec.simps) (simp add: undec_def digit_val_digit_char)
  next
    case False
    then have "undec (dec (n div 10)) = n div 10"
      using "1.IH" by simp
    with False show ?thesis
      by (subst dec.simps) (simp add: undec_snoc digit_val_digit_char)
  qed
qed

lemma undec_zeros: "undec (replicate k (CHR ''0'') @ s) = undec s"
proof -
  have "foldl (\<lambda>a c. 10 * a + digit_val c) 0 (replicate k (CHR ''0'')) = 0"
    by (induction k) (simp_all add: digit_val_def)
  then show ?thesis
    by (simp add: undec_def)
qed

lemma undec_fmt04d: "undec (fmt04d i) = i"
  by (simp add: fmt04d_def undec_zeros undec_dec)

lemma new_name_inj: "new_name i = new_name j \<longleftrightarrow> i = j"
proof
  assume "new_name i = new_name j"
  then have "fmt04d i = fmt04d j"
    by (simp add: new_name_def)
  then have "undec (fmt04d i) = undec (fmt04d j)"
    by simp
  then show "i = j"
    by (simp add: undec_fmt04d)
qed simp

lemma dec_nonempty: "dec n \<noteq> []"
  by (subst dec.simps) simp

lemma hd_dec_nonzero: "0 < n \<Longrightarrow> hd (dec n) \<noteq> CHR ''0''"
proof (induction n rule: dec.induct)
  case (1 n)
  show ?case
  proof (cases "n < 10")
    case True
    with "1.prems" show ?thesis
      by (subst dec.simps) (simp add: digit_char_zero_iff)
  next
    case False
    then have "hd (dec (n div 10)) \<noteq> CHR ''0''"
      using "1.IH" by simp
    with False show ?thesis
      by (subst dec.simps) (simp add: dec_nonempty)
  qed
qed

lemma length_dec_lt4: "length (dec n) < 4 \<longleftrightarrow> n < 1000"
proof -
  have a: "length (dec n) = (if n < 10 then 1 else Suc (length (dec (n div 10))))" for n
    by (subst dec.simps) simp
  have b: "1 \<le> length (dec n)" for n
    by (subst a) simp
  show ?thesis
  proof (cases "n < 1000")
    case True
    then have "n div 10 div 10 < 10" by simp
    then have "length (dec n) \<le> 3"
      by (simp add: a [of n] a [of "n div 10"] a [of "n div 10 div 10"])
    with True show ?thesis by simp
  next
    case False
    then have "\<not> n < 10" "\<not> n div 10 < 10" "\<not> n div 10 div 10 < 10"
      by simp_all
    then have "length (dec n) = 3 + length (dec (n div 10 div 10 div 10))"
      by (simp add: a [of n] a [of "n div 10"] a [of "n div 10 div 10"])
    with b [of "n div 10 div 10 div 10"] False show ?thesis by linarith
  qed
qed

lemma new_name_startswith_zero: "startswith (new_name i) ''0'' \<longleftrightarrow> i < 1000"
proof (cases "i < 1000")
  case True
  then have "length (dec i) < 4" by (simp add: length_dec_lt4)
  then obtain k where "4 - length (dec i) = Suc k"
    by (cases "4 - length (dec i)") auto
  with True show ?thesis
    by (simp add: startswith_def new_name_def fmt04d_def)
next
  case False
  then have "\<not> length (dec i) < 4" by (simp add: length_dec_lt4)
  then have "fmt04d i = dec i" by (simp add: fmt04d_def)
  moreover have "hd (dec i) \<noteq> CHR ''0''"
    using False hd_dec_nonzero [of i] by simp
  ultimately show ?thesis
    using False dec_nonempty [of i]
    by (cases "dec i") (auto simp: startswith_def new_name_def)
qed

lemma endswith_new_name: "endswith (new_name i) ''.jpg''"
  by (simp add: endswith_def new_name_def)

subsection \<open>The loop, iteration by iteration\<close>

lemma state_before_0: "state_before refuse d cs 0 = d"
  by (simp add: state_before_def)

lemma state_before_Suc:
  assumes "k < length cs"
  shows "state_before refuse d cs (Suc k) =
           fst (rename_step refuse (state_before refuse d cs k) k (fst (cs ! k)))"
proof -
  have "take (Suc k) cs = take k cs @ [cs ! k]"
    using assms by (simp add: take_Suc_conv_app_nth)
  moreover have "length (take k cs) = k"
    using assms by simp
  ultimately show ?thesis
    by (simp add: state_before_def rename_loop_append rename_loop_Cons)
qed

lemma rename_loop_split:
  assumes "k < length cs"
  shows "rename_loop refuse d 0 cs =
           (fst (rename_loop refuse (state_before refuse d cs (Suc k)) (Suc k) (drop (Suc k) cs)),
            snd (rename_loop refuse d 0 (take k cs)) @
            snd (rename_step refuse (state_before refuse d cs k) k (fst (cs ! k))) #
            snd (rename_loop refuse (state_before refuse d cs (Suc k)) (Suc k) (drop (Suc k) cs)))"
proof -
  have cs: "cs = take k cs @ cs ! k # drop (Suc k) cs"
    using assms by (simp add: id_take_nth_drop)
  have len: "length (take k cs) = k"
    using assms by simp
  have "rename_loop refuse d 0 cs = rename_loop refuse d 0 (take k cs @ cs ! k # drop (Suc k) cs)"
    using cs by simp
  then show ?thesis
    unfolding rename_loop_append len state_before_Suc [OF assms]
    by (simp add: rename_loop_Cons state_before_def)
qed

lemma rename_loop_line:
  assumes "k < length cs"
  shows "snd (rename_loop refuse d 0 cs) ! k =
           snd (rename_step refuse (state_before refuse d cs k) k (fst (cs ! k)))"
proof -
  have "length (snd (rename_loop refuse d 0 (take k cs))) = k"
    using assms by (simp add: length_rename_loop)
  then show ?thesis
    by (simp add: rename_loop_split [OF assms] nth_append)
qed

lemma rename_loop_final:
  assumes "k \<le> length cs"
  shows "fst (rename_loop refuse d 0 cs) =
           fst (rename_loop refuse (state_before refuse d cs k) k (drop k cs))"
proof -
  have "rename_loop refuse d 0 cs = rename_loop refuse d 0 (take k cs @ drop k cs)"
    by simp
  moreover have "length (take k cs) = k"
    using assms by simp
  ultimately show ?thesis
    unfolding rename_loop_append by (simp add: state_before_def)
qed

lemma state_before_keeps:
  assumes "d n = Some f" and "n \<notin> fst ` set (take k cs)"
  shows "state_before refuse d cs k n = Some f"
  unfolding state_before_def using assms by (rule rename_loop_keeps)

text \<open>A run is a renaming: no entry is lost, none is replaced, none appears from nothing.\<close>

lemma renamed_copy_refl: "renamed_copy d d"
  unfolding renamed_copy_def by (rule exI [of _ id]) simp

lemma renamed_copy_trans:
  assumes "renamed_copy d1 d2" and "renamed_copy d2 d3"
  shows "renamed_copy d1 d3"
proof -
  from assms(1) obtain r1 where r1: "inj_on r1 (dom d1)" "dom d2 = r1 ` dom d1"
    "\<forall>n\<in>dom d1. d2 (r1 n) = d1 n"
    unfolding renamed_copy_def by blast
  from assms(2) obtain r2 where r2: "inj_on r2 (dom d2)" "dom d3 = r2 ` dom d2"
    "\<forall>n\<in>dom d2. d3 (r2 n) = d2 n"
    unfolding renamed_copy_def by blast
  have "inj_on (r2 \<circ> r1) (dom d1)"
    using r1(1,2) r2(1) by (simp add: comp_inj_on)
  moreover have "dom d3 = (r2 \<circ> r1) ` dom d1"
    using r1(2) r2(2) by (simp add: image_comp)
  moreover have "\<forall>n\<in>dom d1. d3 ((r2 \<circ> r1) n) = d1 n"
    using r1(2,3) r2(3) by auto
  ultimately show ?thesis
    unfolding renamed_copy_def by blast
qed

lemma renamed_copy_move:
  assumes "d old = Some f" and "d new = None"
  shows "renamed_copy d ((d(old := None))(new \<mapsto> f))"
proof -
  let ?r = "\<lambda>n. if n = old then new else n"
  have "inj_on ?r (dom d)"
    using assms by (auto simp: inj_on_def)
  moreover have "dom ((d(old := None))(new \<mapsto> f)) = ?r ` dom d"
    using assms by (auto simp: image_iff split: if_splits)
  moreover have "\<forall>n\<in>dom d. ((d(old := None))(new \<mapsto> f)) (?r n) = d n"
    using assms by auto
  ultimately show ?thesis
    unfolding renamed_copy_def by blast
qed

lemma rename_step_renamed_copy: "renamed_copy d (fst (rename_step refuse d i old))"
  by (auto simp: rename_step_def os_path_exists_def os_rename_def renamed_copy_refl
      renamed_copy_move split: option.splits)

lemma rename_loop_renamed_copy: "renamed_copy d (fst (rename_loop refuse d i cs))"
proof (induction cs arbitrary: d i)
  case Nil
  show ?case by (simp add: renamed_copy_refl)
next
  case (Cons c cs)
  show ?case
    unfolding rename_loop_Cons fst_conv
    by (rule renamed_copy_trans [OF rename_step_renamed_copy Cons.IH])
qed

lemma run_renamed_copy:
  assumes "rename_images_by_age refuse names d = Inr (d', out)"
  shows "renamed_copy d d'"
proof (cases "jpg_files names = []")
  case True
  with assms show ?thesis by (simp add: rename_images_by_age_def renamed_copy_refl)
next
  case False
  with assms obtain info where info: "file_info names d = Inr info"
    by (auto simp: rename_images_by_age_def split: sum.splits)
  show ?thesis
  proof (cases "info = []")
    case True
    with assms info False show ?thesis
      by (simp add: rename_images_by_age_def renamed_copy_refl)
  next
    case False
    with assms info have "d' = fst (rename_loop refuse d 0 (sort_newest_first info))"
      by (simp add: run_with_candidates)
    then show ?thesis
      by (simp add: rename_loop_renamed_copy)
  qed
qed

subsection \<open>The candidates of a listed directory\<close>

lemma endswith_suffix: "endswith s e \<longleftrightarrow> suffix e s"
proof
  assume "endswith s e"
  then have "s = take (length s - length e) s @ e"
    by (metis append_take_drop_id endswith_def)
  then show "suffix e s"
    by (metis suffixI)
next
  assume "suffix e s"
  then obtain p where "s = p @ e"
    by (auto simp: suffix_def)
  then show "endswith s e"
    by (simp add: endswith_def)
qed

lemma endswith_exclusive:
  assumes "endswith n e1" and "endswith n e2"
  shows "suffix e1 e2 \<or> suffix e2 e1"
  using assms suffix_same_cases [of e1 n e2] by (simp add: endswith_suffix)

lemma not_suffix_patterns:
  "\<not> suffix ''.jpg'' ''.JPG''" "\<not> suffix ''.JPG'' ''.jpg''"
  "\<not> suffix ''.jpg'' ''.jpeg''" "\<not> suffix ''.jpeg'' ''.jpg''"
  "\<not> suffix ''.jpg'' ''.JPEG''" "\<not> suffix ''.JPEG'' ''.jpg''"
  "\<not> suffix ''.JPG'' ''.jpeg''" "\<not> suffix ''.jpeg'' ''.JPG''"
  "\<not> suffix ''.JPG'' ''.JPEG''" "\<not> suffix ''.JPEG'' ''.JPG''"
  "\<not> suffix ''.jpeg'' ''.JPEG''" "\<not> suffix ''.JPEG'' ''.jpeg''"
  by (simp_all add: suffix_Cons)

lemma distinct_jpg_files:
  assumes "distinct names"
  shows "distinct (jpg_files names)"
proof -
  have "set (glob_star e1 names) \<inter> set (glob_star e2 names) = {}"
    if "\<not> suffix e1 e2" "\<not> suffix e2 e1" for e1 e2
    using that endswith_exclusive [of _ e1 e2] by (auto simp: glob_star_def)
  then show ?thesis
    using assms by (simp add: jpg_files_def glob_star_def not_suffix_patterns Int_Un_distrib)
qed

lemma distinct_file_info_names:
  assumes "distinct names" and "file_info names d = Inr info"
  shows "distinct (map fst info)"
proof -
  have "map fst info = filter (\<lambda>n. \<not> startswith n ''0'') (jpg_files names)"
    using collect_info_names [of d "jpg_files names" info] assms(2) by (simp add: file_info_def)
  then show ?thesis
    using distinct_jpg_files [OF assms(1)] by simp
qed

lemma file_info_entries:
  assumes "file_info names d = Inr info" and "(n, t) \<in> set info"
  shows "n \<in> set names \<and> (\<exists>f. d n = Some f \<and> mtime f = t)"
proof -
  have "collect_info d xs = Inr info \<Longrightarrow> (n, t) \<in> set info \<Longrightarrow>
      n \<in> set xs \<and> (\<exists>f. d n = Some f \<and> mtime f = t)" for xs info
    by (induction xs arbitrary: info)
       (auto simp: os_path_getmtime_def split: if_splits sum.splits option.splits)
  from this [of "jpg_files names" info] assms show ?thesis
    by (auto simp: file_info_def set_jpg_files)
qed

text \<open>
  In a listed directory the candidates not yet reached are, at every iteration, still where
  the listing found them.
\<close>

lemma pending_source_untouched:
  assumes "distinct (map fst cs)" and "k \<le> m" and "m < length cs"
    and "d (fst (cs ! m)) = Some f"
  shows "state_before refuse d cs k (fst (cs ! m)) = Some f"
proof -
  have "fst (cs ! m) \<notin> fst ` set (take k cs)"
  proof
    assume "fst (cs ! m) \<in> fst ` set (take k cs)"
    then obtain j where j: "j < k" "j < length cs" "fst (cs ! j) = fst (cs ! m)"
      by (auto simp: in_set_conv_nth)
    then have "map fst cs ! j = map fst cs ! m"
      using assms(3) by simp
    moreover have "j < length (map fst cs)" "m < length (map fst cs)"
      using j assms(3) by simp_all
    ultimately have "j = m"
      using assms(1) nth_eq_iff_index_eq [of "map fst cs" j m] by blast
    with j assms(2) show False by simp
  qed
  with assms(4) show ?thesis
    by (rule state_before_keeps)
qed

lemma source_not_later:
  assumes "distinct (map fst cs)" and "k < length cs"
  shows "fst (cs ! k) \<notin> fst ` set (drop (Suc k) cs)"
proof
  assume "fst (cs ! k) \<in> fst ` set (drop (Suc k) cs)"
  then obtain j where j: "j < length cs - Suc k" "fst (cs ! (Suc k + j)) = fst (cs ! k)"
    by (auto simp: in_set_conv_nth)
  then have "map fst cs ! (Suc k + j) = map fst cs ! k"
    using assms(2) by simp
  moreover have "Suc k + j < length (map fst cs)" "k < length (map fst cs)"
    using j assms(2) by simp_all
  ultimately have "Suc k + j = k"
    using assms(1) nth_eq_iff_index_eq [of "map fst cs" "Suc k + j" k] by blast
  then show False by simp
qed

lemma rename_step_cases:
  assumes "d n = Some f"
  shows "fst (rename_step refuse d i old) n = Some f \<or>
         (n = old \<and> d (new_name i) = None \<and>
          fst (rename_step refuse d i old) (new_name i) = Some f)"
  using assms
  by (auto simp: rename_step_def os_path_exists_def os_rename_def split: option.splits)

lemma rename_step_skip:
  assumes "os_path_exists d (new_name i)"
  shows "rename_step refuse d i old = (d, msg_warning (new_name i) old)"
  using assms by (simp add: rename_step_def)

lemma rename_step_error:
  assumes "\<not> os_path_exists d (new_name i)" and "os_rename refuse d old (new_name i) = Inl e"
  shows "rename_step refuse d i old = (d, msg_error old e)"
  using assms by (simp add: rename_step_def)

lemma rename_step_ok:
  assumes "\<not> os_path_exists d (new_name i)" and "os_rename refuse d old (new_name i) = Inr d1"
  shows "rename_step refuse d i old = (d1, msg_renamed old (new_name i))"
  using assms by (simp add: rename_step_def)

lemma run_loop:
  assumes "rename_images_by_age refuse names d = Inr (d', out)"
    and "file_info names d = Inr info" and "k < length info"
  shows "d' = fst (rename_loop refuse d 0 (sort_newest_first info))"
    and "out = snd (rename_loop refuse d 0 (sort_newest_first info)) @ [msg_summary (length info)]"
proof -
  from assms(3) have "info \<noteq> []" by auto
  from run_with_candidates [OF assms(2) this, of refuse] assms(1)
  show "d' = fst (rename_loop refuse d 0 (sort_newest_first info))"
    and "out = snd (rename_loop refuse d 0 (sort_newest_first info)) @ [msg_summary (length info)]"
    by simp_all
qed

lemma run_line:
  assumes "rename_images_by_age refuse names d = Inr (d', out)"
    and "file_info names d = Inr info" and "k < length info"
  shows "out ! k =
     snd (rename_step refuse (state_before refuse d (sort_newest_first info) k) k
            (fst (sort_newest_first info ! k)))"
proof -
  have k: "k < length (sort_newest_first info)"
    using assms(3) by (simp add: length_sort_newest_first)
  then have "k < length (snd (rename_loop refuse d 0 (sort_newest_first info)))"
    by (simp add: length_rename_loop)
  then show ?thesis
    using run_loop(2) [OF assms] rename_loop_line [OF k, of refuse d] by (simp add: nth_append)
qed

text \<open>
  In a listed directory, a candidate that an iteration leaves under its name is still
  there, unchanged, after the run.
\<close>

lemma left_source_stays:
  assumes "distinct (map fst cs)" and "k < length cs" and "d (fst (cs ! k)) = Some f"
    and "state_before refuse d cs (Suc k) = state_before refuse d cs k"
  shows "fst (rename_loop refuse d 0 cs) (fst (cs ! k)) = Some f"
proof -
  have "state_before refuse d cs k (fst (cs ! k)) = Some f"
    using assms(1) le_refl assms(2,3) by (rule pending_source_untouched)
  then have "state_before refuse d cs (Suc k) (fst (cs ! k)) = Some f"
    using assms(4) by simp
  then have "fst (rename_loop refuse (state_before refuse d cs (Suc k)) (Suc k) (drop (Suc k) cs))
      (fst (cs ! k)) = Some f"
    using source_not_later [OF assms(1,2)] by (rule rename_loop_keeps)
  then show ?thesis
    using rename_loop_final [of "Suc k" cs refuse d] assms(2) by simp
qed

lemma ex_sorted:
  "sort_newest_first [(''a.jpg'', 3), (''b.JPG'', 2), (''c.jpeg'', 1)] =
     [(''a.jpg'', 3), (''b.JPG'', 2), (''c.jpeg'', 1)]"
  by (simp add: sort_newest_first_def)

lemma ex_listing: "listing ex_names ex_dir"
  by (auto simp: listing_def ex_names_def ex_dir_def dir_of_def)

lemma ex_run:
  "rename_images_by_age ex_refuse ex_names ex_dir =
     Inr (ex_after,
          [''Renamed: a.jpg -> 0000.jpg'',
           ''Warning: 0001.jpg already exists, skipping b.JPG'',
           ''Error renaming c.jpeg: [Errno 13] Permission denied'',
           [CHR 0x0A] @ ''Renamed 3 files successfully''])"
proof -
  have ne: "[(''a.jpg'', 3::real), (''b.JPG'', 2), (''c.jpeg'', 1)] \<noteq> []"
    by simp
  show ?thesis
    unfolding run_with_candidates [OF ex_file_info ne] ex_sorted
    by (simp add: rename_loop_Cons rename_step_def new_name_small
        os_path_exists_def os_rename_def ex_refuse_def ex_dir_def dir_of_def
        msg_renamed_def msg_warning_def msg_error_def msg_summary_def dec.simps digit_char_def
        ex_after_def)
qed

text \<open>
  In a listed directory, a file that an iteration has moved to its target name is still
  there after the run.
\<close>

lemma earlier_rename_stays:
  assumes dist: "distinct (map fst cs)"
    and ex: "\<forall>c\<in>set cs. d (fst c) \<noteq> None"
    and j: "j < length cs"
    and free: "\<not> os_path_exists (state_before refuse d cs j) (new_name j)"
    and ok: "os_rename refuse (state_before refuse d cs j) (fst (cs ! j)) (new_name j) = Inr d1"
  shows "fst (rename_loop refuse d 0 cs) (new_name j) = d (fst (cs ! j))"
proof -
  let ?st = "state_before refuse d cs"
  from ex j obtain f where f: "d (fst (cs ! j)) = Some f"
    by (metis nth_mem not_None_eq)
  have pend: "?st j (fst (cs ! m)) = d (fst (cs ! m))" if "j \<le> m" "m < length cs" for m
  proof -
    from ex that(2) obtain g where g: "d (fst (cs ! m)) = Some g"
      by (metis nth_mem not_None_eq)
    have "?st j (fst (cs ! m)) = Some g"
      using dist that g by (rule pending_source_untouched)
    with g show ?thesis by simp
  qed
  have src: "?st j (fst (cs ! j)) = Some f"
    using pend [of j] j f by simp
  have d1: "d1 = ((?st j)(fst (cs ! j) := None))(new_name j \<mapsto> f)"
    using ok src by (auto simp: os_rename_def split: option.splits)
  have "?st (Suc j) = d1"
    using state_before_Suc [OF j, of refuse d] rename_step_ok [OF free ok] by simp
  then have at: "?st (Suc j) (new_name j) = Some f"
    using d1 by simp
  have "new_name j \<notin> fst ` set (drop (Suc j) cs)"
  proof
    assume "new_name j \<in> fst ` set (drop (Suc j) cs)"
    then obtain i where i: "i < length cs - Suc j" "fst (cs ! (Suc j + i)) = new_name j"
      by (auto simp: in_set_conv_nth)
    then have "?st j (new_name j) = d (fst (cs ! (Suc j + i)))"
      using pend [of "Suc j + i"] by simp
    moreover have "d (fst (cs ! (Suc j + i))) \<noteq> None"
      using ex i(1) by (metis add.commute less_diff_conv nth_mem)
    ultimately show False
      using free by (simp add: os_path_exists_def)
  qed
  with at have "fst (rename_loop refuse (?st (Suc j)) (Suc j) (drop (Suc j) cs)) (new_name j) = Some f"
    by (rule rename_loop_keeps)
  then show ?thesis
    using rename_loop_final [of "Suc j" cs refuse d] j f by simp
qed

lemma listed_candidates:
  assumes "listing names d" and "file_info names d = Inr info"
  shows "distinct (map fst (sort_newest_first info))"
    and "\<forall>c\<in>set (sort_newest_first info). d (fst c) \<noteq> None"
proof -
  show "distinct (map fst (sort_newest_first info))"
    using assms distinct_file_info_names [of names d info]
    by (simp add: listing_def distinct_map_sort_newest_first)
  show "\<forall>c\<in>set (sort_newest_first info). d (fst c) \<noteq> None"
  proof
    fix c
    assume "c \<in> set (sort_newest_first info)"
    then have "(fst c, snd c) \<in> set info"
      by (simp add: set_sort_newest_first)
    from file_info_entries [OF assms(2) this] show "d (fst c) \<noteq> None"
      by auto
  qed
qed

lemma ex_state_1:
  "state_before ex_refuse ex_dir [(''a.jpg'', 3), (''b.JPG'', 2), (''c.jpeg'', 1)] (Suc 0) =
     ex_after"
  by (simp add: state_before_def rename_loop_Cons rename_step_def new_name_small
      os_path_exists_def os_rename_def ex_refuse_def ex_dir_def dir_of_def ex_after_def)

lemma ex_state_2:
  "state_before ex_refuse ex_dir [(''a.jpg'', 3), (''b.JPG'', 2), (''c.jpeg'', 1)] (Suc (Suc 0)) =
     ex_after"
  by (simp add: state_before_def rename_loop_Cons rename_step_def new_name_small
      os_path_exists_def os_rename_def ex_refuse_def ex_dir_def dir_of_def ex_after_def)

text \<open>
  A name that does not exist and is no target of the loop does not exist after the loop.
\<close>

lemma rename_step_absent:
  "d n = None \<Longrightarrow> n \<noteq> new_name i \<Longrightarrow> fst (rename_step refuse d i old) n = None"
  by (auto simp: rename_step_def os_path_exists_def os_rename_def split: option.splits)

lemma rename_loop_absent:
  "d n = None \<Longrightarrow> \<forall>k<length cs. n \<noteq> new_name (i + k) \<Longrightarrow>
   fst (rename_loop refuse d i cs) n = None"
proof (induction cs arbitrary: d i)
  case Nil
  then show ?case by simp
next
  case (Cons c cs)
  from Cons.prems(2) have "n \<noteq> new_name i"
    by force
  with Cons.prems(1) have "fst (rename_step refuse d i (fst c)) n = None"
    by (rule rename_step_absent)
  moreover have "\<forall>k<length cs. n \<noteq> new_name (Suc i + k)"
    using Cons.prems(2) by force
  ultimately show ?case
    unfolding rename_loop_Cons fst_conv by (rule Cons.IH)
qed

text \<open>
  When the operating system refuses nothing, the sources are distinct and exist, and no
  target name exists, the loop moves the candidate at position \<open>k\<close> to the target name of
  rank \<open>i + k\<close>, and no source name is left.
\<close>

lemma rename_loop_all:
  assumes "\<forall>old new. refuse old new = None"
    and "distinct (map fst cs)"
    and "\<forall>c\<in>set cs. d (fst c) \<noteq> None"
    and "\<forall>k<length cs. d (new_name (i + k)) = None"
  shows "(\<forall>k<length cs. fst (rename_loop refuse d i cs) (new_name (i + k)) = d (fst (cs ! k))) \<and>
         (\<forall>c\<in>set cs. fst (rename_loop refuse d i cs) (fst c) = None)"
  using assms(2-4)
proof (induction cs arbitrary: d i)
  case Nil
  show ?case by simp
next
  case (Cons c cs)
  let ?old = "fst c"
  from Cons.prems(2) obtain f where f: "d ?old = Some f"
    by auto
  from Cons.prems(3) have free: "d (new_name i) = None"
    by force
  define d1 where "d1 = (d(?old := None))(new_name i \<mapsto> f)"
  have step: "fst (rename_step refuse d i ?old) = d1"
    using f free assms(1) by (simp add: rename_step_def os_path_exists_def os_rename_def d1_def)
  have final: "fst (rename_loop refuse d i (c # cs)) = fst (rename_loop refuse d1 (Suc i) cs)"
    by (simp add: rename_loop_Cons step)
  have on: "?old \<noteq> new_name i"
    using f free by auto
  have src: "fst c' \<noteq> ?old \<and> fst c' \<noteq> new_name i \<and> d (fst c') \<noteq> None" if "c' \<in> set cs" for c'
  proof -
    have "?old \<notin> fst ` set cs"
      using Cons.prems(1) by simp
    with that have "fst c' \<noteq> ?old"
      by (metis imageI)
    moreover have "d (fst c') \<noteq> None"
      using Cons.prems(2) that by simp
    ultimately show ?thesis
      using free by auto
  qed
  have p1: "distinct (map fst cs)"
    using Cons.prems(1) by simp
  have p2: "\<forall>c'\<in>set cs. d1 (fst c') \<noteq> None"
    using src by (simp add: d1_def)
  have p3: "\<forall>k<length cs. d1 (new_name (Suc i + k)) = None"
  proof (intro allI impI)
    fix k
    assume "k < length cs"
    then have "d (new_name (i + Suc k)) = None"
      using Cons.prems(3) by force
    then show "d1 (new_name (Suc i + k)) = None"
      by (simp add: d1_def new_name_inj)
  qed
  note IH = Cons.IH [OF p1 p2 p3]
  have a: "fst (rename_loop refuse d i (c # cs)) (new_name (i + k)) = d (fst ((c # cs) ! k))"
    if "k < length (c # cs)" for k
  proof (cases k)
    case 0
    have "new_name i \<notin> fst ` set cs"
    proof
      assume "new_name i \<in> fst ` set cs"
      then obtain c' where "c' \<in> set cs" "fst c' = new_name i"
        by auto
      with src [of c'] show False
        by simp
    qed
    moreover have "d1 (new_name i) = Some f"
      by (simp add: d1_def)
    ultimately have "fst (rename_loop refuse d1 (Suc i) cs) (new_name i) = Some f"
      by (rule rename_loop_keeps [rotated])
    with 0 f final show ?thesis by simp
  next
    case (Suc j)
    with that have j: "j < length cs"
      by simp
    then have "fst (rename_loop refuse d1 (Suc i) cs) (new_name (Suc i + j)) = d1 (fst (cs ! j))"
      using IH by blast
    moreover have "d1 (fst (cs ! j)) = d (fst (cs ! j))"
      using src [of "cs ! j"] j by (simp add: d1_def)
    ultimately show ?thesis
      using Suc final by simp
  qed
  have b: "fst (rename_loop refuse d i (c # cs)) (fst c') = None" if "c' \<in> set (c # cs)" for c'
  proof (cases "c' = c")
    case True
    have "d1 ?old = None"
      using on by (simp add: d1_def)
    moreover have "\<forall>k<length cs. ?old \<noteq> new_name (Suc i + k)"
    proof (intro allI impI)
      fix k
      assume "k < length cs"
      then have "d (new_name (i + Suc k)) = None"
        using Cons.prems(3) by force
      with f show "?old \<noteq> new_name (Suc i + k)"
        by auto
    qed
    ultimately have "fst (rename_loop refuse d1 (Suc i) cs) ?old = None"
      by (rule rename_loop_absent)
    with True final show ?thesis by simp
  next
    case False
    with that have "c' \<in> set cs"
      by simp
    then show ?thesis
      using IH final by simp
  qed
  from a b show ?case
    by blast
qed


text \<open>
  A run in a listed directory where nothing is refused, the candidates have distinct
  modification times and no target name exists: the candidate at position \<open>k\<close> of the
  newest-first order is moved to the target name of rank \<open>k\<close>.
\<close>

lemma run_ranked:
  assumes l: "listing names d"
    and info: "file_info names d = Inr info"
    and free: "\<forall>k<length info. d (new_name k) = None"
    and ok: "\<forall>old new. refuse old new = None"
  shows "\<exists>d' out. rename_images_by_age refuse names d = Inr (d', out) \<and>
           (\<forall>k<length info.
              d' (new_name k) = d (fst (sort_newest_first info ! k)) \<and>
              d (fst (sort_newest_first info ! k)) \<noteq> None \<and>
              d' (fst (sort_newest_first info ! k)) = None)"
proof (cases "info = []")
  case True
  then show ?thesis
    using info run_no_candidates [of names refuse d] by (simp add: file_info_empty_iff)
next
  case False
  let ?cs = "sort_newest_first info"
  let ?d' = "fst (rename_loop refuse d 0 ?cs)"
  have dist: "distinct (map fst ?cs)" and ex: "\<forall>c\<in>set ?cs. d (fst c) \<noteq> None"
    using listed_candidates [OF l info] by simp_all
  have fr: "\<forall>k<length ?cs. d (new_name (0 + k)) = None"
    using free by (simp add: length_sort_newest_first)
  note all = rename_loop_all [OF ok dist ex fr]
  have "?d' (new_name k) = d (fst (?cs ! k)) \<and> d (fst (?cs ! k)) \<noteq> None \<and>
      ?d' (fst (?cs ! k)) = None" if "k < length info" for k
  proof -
    from that have k: "k < length ?cs"
      by (simp add: length_sort_newest_first)
    then have "?cs ! k \<in> set ?cs"
      by simp
    with all ex k show ?thesis
      by auto
  qed
  then show ?thesis
    using run_with_candidates [OF info False, of refuse] by blast
qed



subsection \<open>The directory of 1001 photos\<close>

lemma digit_char_digit: "d < 10 \<Longrightarrow> digit_char d \<in> set ''0123456789''"
  using lt10_cases [of d] by (auto simp: digit_char_def)

lemma set_dec_digits: "set (dec n) \<subseteq> set ''0123456789''"
proof (induction n rule: dec.induct)
  case (1 n)
  show ?case
  proof (cases "n < 10")
    case True
    then show ?thesis
      using digit_char_digit [of n] by (subst dec.simps) simp
  next
    case False
    then have "set (dec (n div 10)) \<subseteq> set ''0123456789''"
      using "1.IH" by simp
    moreover have "digit_char (n mod 10) \<in> set ''0123456789''"
      by (rule digit_char_digit) simp
    ultimately show ?thesis
      using False by (subst dec.simps) simp
  qed
qed

lemma hd_new_name_digit: "hd (new_name i) \<in> set ''0123456789''"
proof -
  have ne: "fmt04d i \<noteq> []"
    by (simp add: fmt04d_def dec_nonempty)
  have sub: "set (fmt04d i) \<subseteq> set ''0123456789''"
    using set_dec_digits [of i] by (auto simp: fmt04d_def)
  have eq: "hd (new_name i) = hd (fmt04d i)"
    using ne by (simp add: new_name_def)
  have "hd (fmt04d i) \<in> set (fmt04d i)"
    using ne by (rule hd_in_set)
  with sub have "hd (fmt04d i) \<in> set ''0123456789''"
    by (rule subsetD)
  then show ?thesis
    unfolding eq .
qed

lemma not_hidden_new_name: "\<not> ishidden (new_name i)"
proof -
  have ne: "new_name i \<noteq> []"
    by (simp add: new_name_def)
  then obtain c s where cs: "new_name i = c # s"
    by (cases "new_name i") auto
  with hd_new_name_digit [of i] have "c \<noteq> CHR ''.''"
    by auto
  with cs show ?thesis
    by (simp add: ishidden_def)
qed

lemma new_name_1000: "new_name 1000 = ''1000.jpg''"
  by (simp add: new_name_def fmt04d_def dec.simps digit_char_def)

lemma dec_inj: "dec j = dec k \<longleftrightarrow> j = k"
proof
  assume "dec j = dec k"
  then have "undec (dec j) = undec (dec k)"
    by simp
  then show "j = k"
    by (simp add: undec_dec)
qed simp

lemma photo_inj: "photo j = photo k \<longleftrightarrow> j = k"
  by (simp add: photo_def dec_inj)

lemma photo_not_new_name: "new_name i \<noteq> photo k"
proof
  assume "new_name i = photo k"
  then have "hd (new_name i) = CHR ''i''"
    by (simp add: photo_def)
  with hd_new_name_digit [of i] show False
    by auto
qed

lemma dir_of_lookup:
  assumes "inj_on f (set ks)" and "distinct ks" and "k \<in> set ks"
  shows "dir_of (map (\<lambda>k. (f k, g k)) ks) (f k) =
           Some \<lparr>mtime = g k, content = ''data of '' @ f k\<rparr>"
proof -
  let ?xs = "map (\<lambda>k. (f k, \<lparr>mtime = g k, content = ''data of '' @ f k\<rparr>)) ks"
  have "distinct (map fst ?xs)"
    using assms(1,2) by (simp add: o_def distinct_map)
  moreover have "(f k, \<lparr>mtime = g k, content = ''data of '' @ f k\<rparr>) \<in> set ?xs"
    using assms(3) by auto
  ultimately have "map_of ?xs (f k) = Some \<lparr>mtime = g k, content = ''data of '' @ f k\<rparr>"
    by (rule map_of_is_SomeI)
  then show ?thesis
    by (simp add: dir_of_def o_def)
qed

lemma dom_dir_of: "dom (dir_of xs) = fst ` set xs"
  by (force simp: dir_of_def dom_map_of_conv_image_fst image_iff)

lemma big_dir_photo:
  "k < 1001 \<Longrightarrow> big_dir (photo k) = Some \<lparr>mtime = real k, content = ''data of '' @ photo k\<rparr>"
  unfolding big_dir_def
  by (rule dir_of_lookup) (simp_all add: inj_on_def photo_inj del: upt_rec_numeral)

lemma dom_big_dir: "dom big_dir = set big_names"
  by (simp add: big_dir_def big_names_def dom_dir_of image_image del: upt_rec_numeral)

lemma big_listing: "listing big_names big_dir"
  by (simp add: listing_def dom_big_dir)
     (simp add: big_names_def distinct_map inj_on_def photo_inj del: upt_rec_numeral)

lemma photo_glob:
  "\<not> ishidden (photo k)" "endswith (photo k) ''.jpg''" "\<not> endswith (photo k) ''.JPG''"
  "\<not> endswith (photo k) ''.jpeg''" "\<not> endswith (photo k) ''.JPEG''"
  "\<not> startswith (photo k) ''0''"
proof -
  show "\<not> ishidden (photo k)"
    by (simp add: photo_def ishidden_def)
  show jpg: "endswith (photo k) ''.jpg''"
    by (simp add: photo_def endswith_def)
  show "\<not> endswith (photo k) ''.JPG''" "\<not> endswith (photo k) ''.jpeg''"
    "\<not> endswith (photo k) ''.JPEG''"
    using endswith_exclusive [OF jpg] not_suffix_patterns by blast+
  show "\<not> startswith (photo k) ''0''"
    by (simp add: photo_def startswith_def)
qed

lemma big_jpg_files: "jpg_files big_names = big_names"
  by (simp add: jpg_files_def glob_star_def big_names_def filter_map o_def photo_glob
      del: upt_rec_numeral)

lemma big_file_info:
  "file_info big_names big_dir = Inr (map (\<lambda>k. (photo k, real k)) [0..<1001])"
proof -
  have "set (jpg_files big_names) \<subseteq> dom big_dir"
    by (simp add: big_jpg_files dom_big_dir)
  then have "file_info big_names big_dir =
      Inr (map (\<lambda>n. (n, mtime (the (big_dir n))))
             (filter (\<lambda>n. \<not> startswith n ''0'') (jpg_files big_names)))"
    unfolding file_info_def by (rule collect_info_Inr)
  also have "filter (\<lambda>n. \<not> startswith n ''0'') (jpg_files big_names) = big_names"
    unfolding big_jpg_files
    by (simp add: big_names_def filter_map o_def photo_glob del: upt_rec_numeral)
  also have "map (\<lambda>n. (n, mtime (the (big_dir n)))) big_names =
      map (\<lambda>k. (photo k, real k)) [0..<1001]"
    by (simp add: big_names_def big_dir_photo del: upt_rec_numeral)
  finally show ?thesis .
qed

lemma big_free: "big_dir (new_name i) = None"
proof -
  have "new_name i \<notin> dom big_dir"
    using photo_not_new_name [of i]
    by (auto simp: dom_big_dir big_names_def simp del: upt_rec_numeral)
  then show ?thesis
    by auto
qed

lemma listing_exists:
  assumes "listing names d" and "renamed_copy d d'"
  shows "\<exists>names'. listing names' d'"
proof -
  from assms(2) obtain r where "dom d' = r ` dom d"
    unfolding renamed_copy_def by blast
  moreover have "finite (dom d)"
    using assms(1) by (metis List.finite_set listing_def)
  ultimately have "finite (dom d')"
    by simp
  then show ?thesis
    unfolding listing_def using finite_distinct_list [of "dom d'"] by blast
qed

section \<open>The claims\<close>

text \<open>
  C5. When the candidate set is empty, which is the case exactly when every file matched
  by the four patterns starts with \<^verbatim>\<open>0\<close> (in particular when none matches), the run
  returns the directory as it found it and prints one line, the report that there is
  nothing to do: no rename line, no warning, no error line and no summary.
\<close>

theorem empty_candidates_no_mutation:
  assumes "file_info names d = Inr []"
  shows "(\<forall>n\<in>set (jpg_files names). startswith n ''0'') \<and>
         rename_images_by_age refuse names d =
           Inr (d, [if jpg_files names = [] then msg_no_jpg else msg_nothing])"
  using assms run_no_candidates [of names refuse d] by (simp add: file_info_empty_iff)

theorem empty_candidates_no_mutation_witness:
  "file_info done_names done_dir = Inr [] \<and>
   jpg_files done_names = [''0001.jpg'', ''0000.jpg''] \<and>
   rename_images_by_age ex_refuse done_names done_dir = Inr (done_dir, [msg_nothing])"
proof -
  have h: "file_info done_names done_dir = Inr []"
    by (simp add: file_info_def done_jpg_files startswith_def)
  show ?thesis
    using h empty_candidates_no_mutation [OF h, of ex_refuse] by (simp add: done_jpg_files)
qed

text \<open>
  C7. When there are candidates, the last line printed is the summary, and the number in
  it is the number of candidates, \<^verbatim>\<open>len(file_info)\<close>, whatever the operating system
  refuses and whatever targets exist. The loop prints one line for each candidate
  before it. When the listing has no name twice, no candidate is counted twice: the
  number is the number of candidate names.
\<close>

theorem summary_counts_candidates:
  assumes "file_info names d = Inr info" and "info \<noteq> []"
  shows "(\<exists>d' out.
            rename_images_by_age refuse names d =
              Inr (d', out @ [[CHR 0x0A] @ ''Renamed '' @ dec (length info) @ '' files successfully'']) \<and>
            length out = length info) \<and>
         (distinct names \<longrightarrow> length info = card (fst ` set info))"
proof
  show "\<exists>d' out.
      rename_images_by_age refuse names d =
        Inr (d', out @ [[CHR 0x0A] @ ''Renamed '' @ dec (length info) @ '' files successfully'']) \<and>
      length out = length info"
    using run_with_candidates [OF assms, of refuse]
    by (simp add: msg_summary_def length_rename_loop length_sort_newest_first)
  show "distinct names \<longrightarrow> length info = card (fst ` set info)"
  proof
    assume "distinct names"
    then have "distinct (map fst info)"
      using assms(1) by (rule distinct_file_info_names)
    then have "card (set (map fst info)) = length (map fst info)"
      by (rule distinct_card)
    then show "length info = card (fst ` set info)"
      by simp
  qed
qed

text \<open>
  In the example one rename succeeds, one is skipped and one fails; the summary says 3.
\<close>

theorem summary_counts_candidates_witness:
  "file_info ex_names ex_dir = Inr [(''a.jpg'', 3), (''b.JPG'', 2), (''c.jpeg'', 1)] \<and>
   [(''a.jpg'', 3::real), (''b.JPG'', 2), (''c.jpeg'', 1)] \<noteq> [] \<and>
   distinct ex_names \<and>
   (\<exists>d' out.
      rename_images_by_age ex_refuse ex_names ex_dir =
        Inr (d', out @ [[CHR 0x0A] @ ''Renamed 3 files successfully'']) \<and>
      length out = 3) \<and>
   card (fst ` set [(''a.jpg'', 3::real), (''b.JPG'', 2), (''c.jpeg'', 1)]) = 3"
proof -
  have h: "[(''a.jpg'', 3::real), (''b.JPG'', 2), (''c.jpeg'', 1)] \<noteq> []"
    by simp
  have l: "length [(''a.jpg'', 3::real), (''b.JPG'', 2), (''c.jpeg'', 1)] = 3"
    by simp
  have n: "dec 3 = ''3''"
    by (simp add: dec.simps digit_char_def)
  have dn: "distinct ex_names"
    by (simp add: ex_names_def)
  note t = summary_counts_candidates [OF ex_file_info h, of ex_refuse]
  from t have "\<exists>d' out.
      rename_images_by_age ex_refuse ex_names ex_dir =
        Inr (d', out @ [[CHR 0x0A] @ ''Renamed '' @ dec 3 @ '' files successfully'']) \<and>
      length out = 3"
    unfolding l by (rule conjunct1)
  then have 1: "\<exists>d' out.
      rename_images_by_age ex_refuse ex_names ex_dir =
        Inr (d', out @ [[CHR 0x0A] @ ''Renamed 3 files successfully'']) \<and>
      length out = 3"
    unfolding n by simp
  from t dn have 2: "card (fst ` set [(''a.jpg'', 3::real), (''b.JPG'', 2), (''c.jpeg'', 1)]) = 3"
    unfolding l by simp
  from ex_file_info h dn 1 2 show ?thesis
    by blast
qed

text \<open>
  C8. A name that starts with \<^verbatim>\<open>0\<close> is never a candidate, and a file under such a name
  is still there, unchanged, after the run. When every file matched by the four patterns
  starts with \<^verbatim>\<open>0\<close>, as after an earlier run, the run leaves the directory as it is and
  prints only the nothing-to-do report.
\<close>

theorem zero_prefixed_never_source:
  "(startswith n ''0'' \<and> file_info names d = Inr info \<longrightarrow> n \<notin> fst ` set info) \<and>
   (startswith n ''0'' \<and> d n = Some f \<and> rename_images_by_age refuse names d = Inr (d', out)
      \<longrightarrow> d' n = Some f) \<and>
   ((\<forall>m\<in>set (jpg_files names). startswith m ''0'') \<longrightarrow>
      rename_images_by_age refuse names d =
        Inr (d, [if jpg_files names = [] then msg_no_jpg else msg_nothing]))"
proof (intro conjI impI)
  assume "startswith n ''0'' \<and> file_info names d = Inr info"
  then show "n \<notin> fst ` set info"
    using file_info_names [of names d info] by simp
next
  assume a: "startswith n ''0'' \<and> d n = Some f \<and>
    rename_images_by_age refuse names d = Inr (d', out)"
  then have "n \<notin> {m \<in> set (jpg_files names). \<not> startswith m ''0''}"
    by simp
  with a show "d' n = Some f"
    using run_keeps_non_source [of refuse names d d' out n f] by simp
next
  assume "\<forall>m\<in>set (jpg_files names). startswith m ''0''"
  then show "rename_images_by_age refuse names d =
      Inr (d, [if jpg_files names = [] then msg_no_jpg else msg_nothing])"
    by (rule run_no_candidates)
qed

text \<open>
  In the example directory \<^verbatim>\<open>0001.jpg\<close> is left alone although a photo is ranked 1, and
  the directory of an earlier run's output is left as it is.
\<close>

theorem zero_prefixed_never_source_witness:
  "startswith ''0001.jpg'' ''0'' \<and>
   file_info ex_names ex_dir = Inr [(''a.jpg'', 3), (''b.JPG'', 2), (''c.jpeg'', 1)] \<and>
   ''0001.jpg'' \<notin> fst ` set [(''a.jpg'', 3::real), (''b.JPG'', 2), (''c.jpeg'', 1)] \<and>
   ex_dir ''0001.jpg'' = Some \<lparr>mtime = 0, content = ''data of 0001.jpg''\<rparr> \<and>
   (\<exists>d' out. rename_images_by_age ex_refuse ex_names ex_dir = Inr (d', out) \<and>
      d' ''0001.jpg'' = Some \<lparr>mtime = 0, content = ''data of 0001.jpg''\<rparr>) \<and>
   list_all (\<lambda>m. startswith m ''0'') (jpg_files done_names) \<and>
   rename_images_by_age ex_refuse done_names done_dir = Inr (done_dir, [msg_nothing])"
proof -
  let ?f = "\<lparr>mtime = 0, content = ''data of 0001.jpg''\<rparr>"
  let ?info = "[(''a.jpg'', 3::real), (''b.JPG'', 2), (''c.jpeg'', 1)]"
  have s: "startswith ''0001.jpg'' ''0''"
    by (simp add: startswith_def)
  have e: "ex_dir ''0001.jpg'' = Some ?f"
    by (simp add: ex_dir_def dir_of_def)
  have ne: "?info \<noteq> []"
    by simp
  obtain d' out where r: "rename_images_by_age ex_refuse ex_names ex_dir = Inr (d', out)"
    using run_with_candidates [OF ex_file_info ne] by blast
  have all0: "\<forall>m\<in>set (jpg_files done_names). startswith m ''0''"
    by (simp add: done_jpg_files startswith_def)
  note t = zero_prefixed_never_source
    [of "''0001.jpg''" ex_names ex_dir ?info ?f ex_refuse d' out]
  note t' = zero_prefixed_never_source
    [of "''0001.jpg''" done_names done_dir ?info ?f ex_refuse d' out]
  have 1: "''0001.jpg'' \<notin> fst ` set ?info"
    using t s ex_file_info by blast
  have 2: "d' ''0001.jpg'' = Some ?f"
    using t s e r by blast
  have 3: "rename_images_by_age ex_refuse done_names done_dir = Inr (done_dir, [msg_nothing])"
    using t' all0 by (simp add: done_jpg_files)
  have 4: "list_all (\<lambda>m. startswith m ''0'') (jpg_files done_names)"
    using all0 by (simp add: list_all_iff)
  show ?thesis
    using s ex_file_info 1 e r 2 3 4 by blast
qed






text \<open>
  C9. Let \<open>stories\<close> be what \<^verbatim>\<open>get_all_stories\<close> returns for a directory whose entries have
  distinct paths. With more than one story, the last of them has the least modification
  time, the selectable stories are all the others, and whatever the user types the launcher
  never plays that last story. With exactly one story, that story is selectable, and the
  answer 1 plays it.
\<close>

theorem oldest_story_not_selectable:
  assumes "distinct (map fst entries)" and "stories = get_all_stories (Some entries)"
  shows "(1 < length stories \<longrightarrow>
            (\<forall>s\<in>set stories. snd (last stories) \<le> snd s) \<and>
            set (available_stories stories) = set stories - {last stories} \<and>
            play_story_choice_main py_int (Some entries) inputs \<noteq> Play (fst (last stories))) \<and>
         (length stories = 1 \<longrightarrow>
            available_stories stories = stories \<and>
            (py_int (strip l) = Some 1 \<longrightarrow>
               play_story_choice_main py_int (Some entries) (Line l # rest) =
                 Play (fst (hd stories))))"
proof (intro conjI impI)
  let ?files = "filter (\<lambda>s. endswith (fst s) ''.json'') entries"
  have st: "stories = sort_newest_first ?files"
    using assms(2) by (simp add: get_all_stories_Some)
  have dm: "distinct (map fst stories)"
    unfolding st using assms(1) by (simp add: distinct_map_sort_newest_first distinct_map_filter)
  then have ds: "distinct stories"
    by (simp add: distinct_map)
  {
    assume len: "1 < length stories"
    then have ne: "stories \<noteq> []"
      by auto
    show "\<forall>s\<in>set stories. snd (last stories) \<le> snd s"
      unfolding st using sort_newest_first_last_oldest [of _ ?files]
      by (simp add: set_sort_newest_first)
    show av: "set (available_stories stories) = set stories - {last stories}"
      using len set_butlast_distinct [OF ds ne] by (simp add: available_stories_def)
    show "play_story_choice_main py_int (Some entries) inputs \<noteq> Play (fst (last stories))"
    proof
      assume p: "play_story_choice_main py_int (Some entries) inputs = Play (fst (last stories))"
      then obtain s where s: "choose_story py_int (available_stories stories) inputs = Some s"
        and f: "fst s = fst (last stories)"
        using assms(2) ne
        by (auto simp: play_story_choice_main_def Let_def split: if_splits option.splits)
      from s have "s \<in> set (available_stories stories)"
        by (rule choose_story_in_available)
      with av have "s \<in> set stories" "s \<noteq> last stories"
        by auto
      moreover have "last stories \<in> set stories"
        using ne by simp
      ultimately have "fst s \<noteq> fst (last stories)"
        using dm by (auto simp: distinct_map inj_on_def)
      with f show False by simp
    qed
  }
  {
    assume len: "length stories = 1"
    then show "available_stories stories = stories"
      by (simp add: available_stories_def)
    assume "py_int (strip l) = Some 1"
    moreover from len obtain s where "stories = [s]"
      by (cases stories) auto
    ultimately show "play_story_choice_main py_int (Some entries) (Line l # rest) =
        Play (fst (hd stories))"
      using assms(2) by (simp add: play_story_choice_main_def available_stories_def)
  }
qed

text \<open>
  With two stories the older one cannot be played, and the answer 1, after a rejected
  answer 2, plays the newer one. With one story the answer 1 plays it.
\<close>

theorem oldest_story_not_selectable_witness:
  "distinct (map fst ex_stories) \<and>
   get_all_stories (Some ex_stories) = [(''stories/new.json'', 2), (''stories/old.json'', 1)] \<and>
   (\<forall>inputs. play_story_choice_main ex_int (Some ex_stories) inputs \<noteq> Play ''stories/old.json'') \<and>
   play_story_choice_main ex_int (Some ex_stories) [Line ''2'', Line '' 1 ''] =
     Play ''stories/new.json'' \<and>
   distinct (map fst one_story) \<and>
   get_all_stories (Some one_story) = [(''stories/only.json'', 7)] \<and>
   ex_int (strip ''1'') = Some 1 \<and>
   play_story_choice_main ex_int (Some one_story) [Line ''1''] = Play ''stories/only.json''"
proof -
  have d2: "distinct (map fst ex_stories)"
    by (simp add: ex_stories_def)
  have d1: "distinct (map fst one_story)"
    by (simp add: one_story_def)
  have p: "ex_int (strip ''1'') = Some 1"
    by (simp add: ex_int_def strip_def isspace_def)
  have a: "play_story_choice_main ex_int (Some ex_stories) inputs \<noteq> Play ''stories/old.json''"
    for inputs
    using oldest_story_not_selectable [OF d2 ex_get_all_stories [symmetric], of ex_int inputs]
    by simp
  have b: "play_story_choice_main ex_int (Some ex_stories) [Line ''2'', Line '' 1 ''] =
      Play ''stories/new.json''"
    by (simp add: play_story_choice_main_def ex_get_all_stories available_stories_def
        ex_int_def strip_def isspace_def)
  have c: "play_story_choice_main ex_int (Some one_story) [Line ''1''] = Play ''stories/only.json''"
    using oldest_story_not_selectable [OF d1 one_get_all_stories [symmetric], of ex_int _ "''1''" "[]"] p
    by simp
  show ?thesis
    using d2 ex_get_all_stories a b d1 one_get_all_stories p c by blast
qed

text \<open>
  C2. Let a run end with directory \<open>d'\<close> and output \<open>out\<close>, and let \<open>cs\<close> be the candidates in
  the order the loop visits them. The directory after the run holds every entry of the
  directory before it, each once, under a name that may have changed. At every iteration a
  file that exists stays as it is, or it is the source and moves to a target name that was
  free. When the target name of iteration \<open>k\<close> exists, the iteration leaves the directory
  as it is and prints the warning that names the source; in a listed directory the source
  is still under its name, unchanged, after the run.
\<close>

theorem existing_files_never_overwritten:
  assumes run: "rename_images_by_age refuse names d = Inr (d', out)"
    and info: "file_info names d = Inr info"
    and cs: "cs = sort_newest_first info"
  shows "(\<exists>r. inj_on r (dom d) \<and> dom d' = r ` dom d \<and> (\<forall>n\<in>dom d. d' (r n) = d n)) \<and>
         (\<forall>k<length cs. \<forall>n f. state_before refuse d cs k n = Some f \<longrightarrow>
            state_before refuse d cs (Suc k) n = Some f \<or>
            (n = fst (cs ! k) \<and> state_before refuse d cs k (new_name k) = None \<and>
             state_before refuse d cs (Suc k) (new_name k) = Some f)) \<and>
         (\<forall>k<length cs. os_path_exists (state_before refuse d cs k) (new_name k) \<longrightarrow>
            state_before refuse d cs (Suc k) = state_before refuse d cs k \<and>
            out ! k = ''Warning: '' @ new_name k @ '' already exists, skipping '' @ fst (cs ! k) \<and>
            (listing names d \<longrightarrow>
               d (fst (cs ! k)) \<noteq> None \<and> d' (fst (cs ! k)) = d (fst (cs ! k))))"
proof (intro conjI allI impI)
  show "\<exists>r. inj_on r (dom d) \<and> dom d' = r ` dom d \<and> (\<forall>n\<in>dom d. d' (r n) = d n)"
    using run_renamed_copy [OF run] by (simp add: renamed_copy_def)
next
  fix k n f
  assume "k < length cs" and "state_before refuse d cs k n = Some f"
  then show "state_before refuse d cs (Suc k) n = Some f \<or>
      (n = fst (cs ! k) \<and> state_before refuse d cs k (new_name k) = None \<and>
       state_before refuse d cs (Suc k) (new_name k) = Some f)"
    using rename_step_cases [of "state_before refuse d cs k" n f refuse k "fst (cs ! k)"]
    by (simp add: state_before_Suc)
next
  fix k
  assume k: "k < length cs"
    and e: "os_path_exists (state_before refuse d cs k) (new_name k)"
  then have ki: "k < length info"
    using cs by (simp add: length_sort_newest_first)
  show same: "state_before refuse d cs (Suc k) = state_before refuse d cs k"
    using k e by (simp add: state_before_Suc rename_step_skip)
  show "out ! k = ''Warning: '' @ new_name k @ '' already exists, skipping '' @ fst (cs ! k)"
    using run_line [OF run info ki] e cs by (simp add: rename_step_skip msg_warning_def)
  assume l: "listing names d"
  have dist: "distinct (map fst cs)" and ex: "\<forall>c\<in>set cs. d (fst c) \<noteq> None"
    using listed_candidates [OF l info] cs by simp_all
  from ex k show "d (fst (cs ! k)) \<noteq> None"
    by simp
  then obtain f where f: "d (fst (cs ! k)) = Some f"
    by blast
  have "fst (rename_loop refuse d 0 cs) (fst (cs ! k)) = Some f"
    using dist k f same by (rule left_source_stays)
  then show "d' (fst (cs ! k)) = d (fst (cs ! k))"
    using run_loop(1) [OF run info ki] cs f by simp
qed

text \<open>
  In the example the second iteration finds \<^verbatim>\<open>0001.jpg\<close>: it is kept, and \<^verbatim>\<open>b.JPG\<close> keeps
  its name.
\<close>

theorem existing_files_never_overwritten_witness:
  "rename_images_by_age ex_refuse ex_names ex_dir =
     Inr (ex_after,
          [''Renamed: a.jpg -> 0000.jpg'',
           ''Warning: 0001.jpg already exists, skipping b.JPG'',
           ''Error renaming c.jpeg: [Errno 13] Permission denied'',
           [CHR 0x0A] @ ''Renamed 3 files successfully'']) \<and>
   file_info ex_names ex_dir = Inr [(''a.jpg'', 3), (''b.JPG'', 2), (''c.jpeg'', 1)] \<and>
   listing ex_names ex_dir \<and>
   os_path_exists
     (state_before ex_refuse ex_dir [(''a.jpg'', 3), (''b.JPG'', 2), (''c.jpeg'', 1)] (Suc 0))
     (new_name (Suc 0)) \<and>
   state_before ex_refuse ex_dir [(''a.jpg'', 3), (''b.JPG'', 2), (''c.jpeg'', 1)] (Suc (Suc 0)) =
     state_before ex_refuse ex_dir [(''a.jpg'', 3), (''b.JPG'', 2), (''c.jpeg'', 1)] (Suc 0) \<and>
   ex_after ''b.JPG'' = ex_dir ''b.JPG'' \<and>
   ex_dir ''b.JPG'' \<noteq> None \<and>
   (\<exists>r. inj_on r (dom ex_dir) \<and> dom ex_after = r ` dom ex_dir \<and>
      ex_after (r ''a.jpg'') = ex_dir ''a.jpg'')"
proof -
  let ?cs = "[(''a.jpg'', 3::real), (''b.JPG'', 2), (''c.jpeg'', 1)]"
  have e: "os_path_exists (state_before ex_refuse ex_dir ?cs (Suc 0)) (new_name (Suc 0))"
    by (simp add: ex_state_1 ex_after_def dir_of_def os_path_exists_def new_name_small)
  note t = existing_files_never_overwritten [OF ex_run ex_file_info ex_sorted [symmetric]]
  from t obtain r where r: "inj_on r (dom ex_dir)" "dom ex_after = r ` dom ex_dir"
    "\<forall>n\<in>dom ex_dir. ex_after (r n) = ex_dir n"
    by blast
  have "''a.jpg'' \<in> dom ex_dir"
    by (simp add: ex_dir_def dir_of_def)
  with r have 1: "\<exists>r. inj_on r (dom ex_dir) \<and> dom ex_after = r ` dom ex_dir \<and>
      ex_after (r ''a.jpg'') = ex_dir ''a.jpg''"
    by blast
  have k: "Suc 0 < length ?cs"
    by simp
  from t k e ex_listing
  have 2: "state_before ex_refuse ex_dir ?cs (Suc (Suc 0)) = state_before ex_refuse ex_dir ?cs (Suc 0)"
    and 3: "ex_dir (fst (?cs ! Suc 0)) \<noteq> None"
    and 4: "ex_after (fst (?cs ! Suc 0)) = ex_dir (fst (?cs ! Suc 0))"
    by blast+
  from 3 4 have 5: "ex_dir ''b.JPG'' \<noteq> None" "ex_after ''b.JPG'' = ex_dir ''b.JPG''"
    by simp_all
  show ?thesis
    using ex_run ex_file_info ex_listing e 1 2 5 by blast
qed

text \<open>
  C6. Let iteration \<open>k\<close> of a run find its target name free and let \<^verbatim>\<open>os.rename\<close> raise \<open>e\<close>
  there. Then the line printed by that iteration is the error message, made of the source
  name and of \<^verbatim>\<open>str(e)\<close>; the iteration leaves the directory as the earlier
  iterations made it; the run goes on: every iteration up to the last candidate is carried
  out and prints its line, the summary follows, and the run returns the directory after
  the last iteration. In a listed directory, every file that an earlier iteration renamed
  is under its target name after the run.
\<close>

theorem rename_error_caught_and_continues:
  assumes run: "rename_images_by_age refuse names d = Inr (d', out)"
    and info: "file_info names d = Inr info"
    and cs: "cs = sort_newest_first info"
    and k: "k < length cs"
    and free: "\<not> os_path_exists (state_before refuse d cs k) (new_name k)"
    and err: "os_rename refuse (state_before refuse d cs k) (fst (cs ! k)) (new_name k) = Inl e"
  shows "out ! k = ''Error renaming '' @ fst (cs ! k) @ '': '' @ str_exn e \<and>
         state_before refuse d cs (Suc k) = state_before refuse d cs k \<and>
         (\<forall>m<length cs.
            state_before refuse d cs (Suc m) =
              fst (rename_step refuse (state_before refuse d cs m) m (fst (cs ! m))) \<and>
            out ! m = snd (rename_step refuse (state_before refuse d cs m) m (fst (cs ! m)))) \<and>
         length out = length cs + 1 \<and>
         out ! length cs = msg_summary (length cs) \<and>
         d' = state_before refuse d cs (length cs) \<and>
         (listing names d \<longrightarrow>
            (\<forall>j<k. \<forall>d1.
               \<not> os_path_exists (state_before refuse d cs j) (new_name j) \<and>
               os_rename refuse (state_before refuse d cs j) (fst (cs ! j)) (new_name j) = Inr d1
               \<longrightarrow> d (fst (cs ! j)) \<noteq> None \<and> d' (new_name j) = d (fst (cs ! j))))"
proof (intro conjI allI impI)
  have ki: "k < length info"
    using k cs by (simp add: length_sort_newest_first)
  have len: "length cs = length info"
    using cs by (simp add: length_sort_newest_first)
  note d' = run_loop(1) [OF run info ki]
  note out = run_loop(2) [OF run info ki]
  show "out ! k = ''Error renaming '' @ fst (cs ! k) @ '': '' @ str_exn e"
    using run_line [OF run info ki] free err cs by (simp add: rename_step_error msg_error_def)
  show "state_before refuse d cs (Suc k) = state_before refuse d cs k"
    using k free err by (simp add: state_before_Suc rename_step_error)
  show "length out = length cs + 1"
    using out cs by (simp add: length_rename_loop)
  show "out ! length cs = msg_summary (length cs)"
    using out cs len by (simp add: nth_append length_rename_loop)
  show "d' = state_before refuse d cs (length cs)"
    using d' cs by (simp add: state_before_def)
  {
    fix m
    assume m: "m < length cs"
    then show "state_before refuse d cs (Suc m) =
        fst (rename_step refuse (state_before refuse d cs m) m (fst (cs ! m)))"
      by (rule state_before_Suc)
    from m len have "m < length info"
      by simp
    from run_line [OF run info this]
    show "out ! m = snd (rename_step refuse (state_before refuse d cs m) m (fst (cs ! m)))"
      using cs by simp
  }
  {
    fix j d1
    assume l: "listing names d" and j: "j < k"
      and ok: "\<not> os_path_exists (state_before refuse d cs j) (new_name j) \<and>
        os_rename refuse (state_before refuse d cs j) (fst (cs ! j)) (new_name j) = Inr d1"
    have dist: "distinct (map fst cs)" and ex: "\<forall>c\<in>set cs. d (fst c) \<noteq> None"
      using listed_candidates [OF l info] cs by simp_all
    from j k have jl: "j < length cs"
      by simp
    with ex show "d (fst (cs ! j)) \<noteq> None"
      by simp
    from ok have "fst (rename_loop refuse d 0 cs) (new_name j) = d (fst (cs ! j))"
      using earlier_rename_stays [OF dist ex jl, of refuse d1] by blast
    then show "d' (new_name j) = d (fst (cs ! j))"
      using d' cs by simp
  }
qed

text \<open>
  In the example the third iteration fails on \<^verbatim>\<open>c.jpeg\<close>; the file renamed by the first
  iteration is under \<^verbatim>\<open>0000.jpg\<close> after the run.
\<close>

theorem rename_error_caught_and_continues_witness:
  "rename_images_by_age ex_refuse ex_names ex_dir =
     Inr (ex_after,
          [''Renamed: a.jpg -> 0000.jpg'',
           ''Warning: 0001.jpg already exists, skipping b.JPG'',
           ''Error renaming c.jpeg: [Errno 13] Permission denied'',
           [CHR 0x0A] @ ''Renamed 3 files successfully'']) \<and>
   file_info ex_names ex_dir = Inr [(''a.jpg'', 3), (''b.JPG'', 2), (''c.jpeg'', 1)] \<and>
   listing ex_names ex_dir \<and>
   \<not> os_path_exists ex_after (new_name (Suc (Suc 0))) \<and>
   os_rename ex_refuse ex_after ''c.jpeg'' (new_name (Suc (Suc 0))) =
     Inl (OSError ''[Errno 13] Permission denied'') \<and>
   \<not> os_path_exists ex_dir (new_name 0) \<and>
   os_rename ex_refuse ex_dir ''a.jpg'' (new_name 0) = Inr ex_after \<and>
   state_before ex_refuse ex_dir [(''a.jpg'', 3), (''b.JPG'', 2), (''c.jpeg'', 1)]
     (Suc (Suc (Suc 0))) = ex_after \<and>
   ex_after (new_name 0) = ex_dir ''a.jpg'' \<and>
   ex_dir ''a.jpg'' \<noteq> None"
proof -
  let ?cs = "[(''a.jpg'', 3::real), (''b.JPG'', 2), (''c.jpeg'', 1)]"
  let ?e = "OSError ''[Errno 13] Permission denied''"
  have k: "Suc (Suc 0) < length ?cs"
    by simp
  have free: "\<not> os_path_exists ex_after (new_name (Suc (Suc 0)))"
    by (simp add: ex_after_def dir_of_def os_path_exists_def new_name_small)
  have err: "os_rename ex_refuse ex_after ''c.jpeg'' (new_name (Suc (Suc 0))) = Inl ?e"
    by (simp add: os_rename_def ex_refuse_def)
  have free0: "\<not> os_path_exists ex_dir (new_name 0)"
    by (simp add: ex_dir_def dir_of_def os_path_exists_def new_name_small)
  have ok0: "os_rename ex_refuse ex_dir ''a.jpg'' (new_name 0) = Inr ex_after"
    by (simp add: os_rename_def ex_refuse_def ex_dir_def dir_of_def ex_after_def new_name_small)
  have free': "\<not> os_path_exists (state_before ex_refuse ex_dir ?cs (Suc (Suc 0)))
      (new_name (Suc (Suc 0)))"
    using free by (simp add: ex_state_2)
  have err': "os_rename ex_refuse (state_before ex_refuse ex_dir ?cs (Suc (Suc 0)))
      (fst (?cs ! Suc (Suc 0))) (new_name (Suc (Suc 0))) = Inl ?e"
    using err by (simp add: ex_state_2)
  note t = rename_error_caught_and_continues
    [OF ex_run ex_file_info ex_sorted [symmetric] k free' err']
  from t have 1: "state_before ex_refuse ex_dir ?cs (Suc (Suc (Suc 0))) = ex_after"
    by (simp add: ex_state_2)
  have ok0': "\<not> os_path_exists (state_before ex_refuse ex_dir ?cs 0) (new_name 0) \<and>
      os_rename ex_refuse (state_before ex_refuse ex_dir ?cs 0) (fst (?cs ! 0)) (new_name 0) =
        Inr ex_after"
    using free0 ok0 by (simp add: state_before_0)
  from t ex_listing have "\<forall>j<Suc (Suc 0). \<forall>d1.
      \<not> os_path_exists (state_before ex_refuse ex_dir ?cs j) (new_name j) \<and>
      os_rename ex_refuse (state_before ex_refuse ex_dir ?cs j) (fst (?cs ! j)) (new_name j) = Inr d1
      \<longrightarrow> ex_dir (fst (?cs ! j)) \<noteq> None \<and> ex_after (new_name j) = ex_dir (fst (?cs ! j))"
    by blast
  with ok0' have "ex_dir (fst (?cs ! 0)) \<noteq> None \<and> ex_after (new_name 0) = ex_dir (fst (?cs ! 0))"
    by blast
  then have 2: "ex_after (new_name 0) = ex_dir ''a.jpg''" "ex_dir ''a.jpg'' \<noteq> None"
    by simp_all
  show ?thesis
    using ex_run ex_file_info ex_listing free err free0 ok0 1 2 by blast
qed



text \<open>
  C10. The target name of rank \<open>i\<close> starts with \<^verbatim>\<open>0\<close> exactly when \<open>i\<close> is below 1000; the
  target name of rank 1000 is \<^verbatim>\<open>1000.jpg\<close>. Let a run with more than 1000 candidates rename
  all of them (listed directory, distinct modification times, no target name in the
  directory, nothing refused). Then \<^verbatim>\<open>1000.jpg\<close>, which did not exist, holds the candidate
  of rank 1000 after the run, and it is a candidate of the next run, however the
  operating system lists the directory.
\<close>

theorem rank_1000_selected_again:
  assumes "listing names d"
    and "file_info names d = Inr info"
    and "distinct (map snd info)"
    and "\<forall>k<length info. d (new_name k) = None"
    and "\<forall>old new. refuse old new = None"
    and "1000 < length info"
    and "rename_images_by_age refuse names d = Inr (d', out)"
    and "listing names' d'"
  shows "new_name 1000 = ''1000.jpg'' \<and> \<not> startswith ''1000.jpg'' ''0'' \<and>
         (\<forall>i. startswith (new_name i) ''0'' \<longleftrightarrow> i < 1000) \<and>
         d ''1000.jpg'' = None \<and>
         d' ''1000.jpg'' = d (fst (sort_newest_first info ! 1000)) \<and>
         d' ''1000.jpg'' \<noteq> None \<and>
         (\<exists>info'. file_info names' d' = Inr info' \<and> ''1000.jpg'' \<in> fst ` set info')"
proof -
  from run_ranked [OF assms(1,2,4,5)] assms(7)
  have ranked: "\<forall>k<length info. d' (new_name k) = d (fst (sort_newest_first info ! k)) \<and>
      d (fst (sort_newest_first info ! k)) \<noteq> None"
    by auto
  with assms(6) have at: "d' ''1000.jpg'' = d (fst (sort_newest_first info ! 1000))"
    and ex: "d' ''1000.jpg'' \<noteq> None"
    by (auto simp: new_name_1000 [symmetric])
  have no: "d ''1000.jpg'' = None"
    using assms(4,6) by (auto simp: new_name_1000 [symmetric])
  have ns: "\<not> startswith ''1000.jpg'' ''0''"
    by (simp add: startswith_def)
  have "set names' \<subseteq> dom d'"
    using assms(8) by (simp add: listing_def)
  then obtain info' where info': "file_info names' d' = Inr info'"
    using file_info_total by blast
  have "''1000.jpg'' \<in> set names'"
    using ex assms(8) by (auto simp: listing_def)
  then have "''1000.jpg'' \<in> set (jpg_files names')"
    by (simp add: set_jpg_files ishidden_def endswith_def)
  with ns have "''1000.jpg'' \<in> fst ` set info'"
    unfolding file_info_names [OF info'] by simp
  with info' at ex no ns show ?thesis
    using new_name_1000 new_name_startswith_zero by blast
qed

text \<open>
  There is such a run: in the directory of the 1001 photos \<^verbatim>\<open>img0.jpg\<close> to \<^verbatim>\<open>img1000.jpg\<close>
  the oldest one, \<^verbatim>\<open>img0.jpg\<close>, is renamed to \<^verbatim>\<open>1000.jpg\<close>, which the next run takes as a
  candidate.
\<close>

theorem rank_1000_selected_again_witness:
  "listing big_names big_dir \<and>
   file_info big_names big_dir = Inr (map (\<lambda>k. (photo k, real k)) [0..<1001]) \<and>
   distinct (map snd (map (\<lambda>k. (photo k, real k)) [0..<1001])) \<and>
   1000 < length (map (\<lambda>k. (photo k, real k)) [0..<1001]) \<and>
   big_dir ''1000.jpg'' = None \<and>
   (\<exists>d' out names' info'.
      rename_images_by_age refuse_nothing big_names big_dir = Inr (d', out) \<and>
      listing names' d' \<and>
      d' ''1000.jpg'' \<noteq> None \<and>
      file_info names' d' = Inr info' \<and> ''1000.jpg'' \<in> fst ` set info')"
proof -
  let ?info = "map (\<lambda>k. (photo k, real k)) [0..<1001]"
  have dm: "distinct (map snd ?info)"
    by (simp add: o_def distinct_map inj_on_def del: upt_rec_numeral)
  have free: "\<forall>k<length ?info. big_dir (new_name k) = None"
    by (simp add: big_free)
  have ok: "\<forall>old new. refuse_nothing old new = None"
    by (simp add: refuse_nothing_def)
  have len: "1000 < length ?info"
    by (simp del: upt_rec_numeral)
  from run_ranked [OF big_listing big_file_info free ok]
  obtain d' out where run: "rename_images_by_age refuse_nothing big_names big_dir = Inr (d', out)"
    by blast
  from listing_exists [OF big_listing run_renamed_copy [OF run]]
  obtain names' where l': "listing names' d'"
    by blast
  note t = rank_1000_selected_again [OF big_listing big_file_info dm free ok len run l']
  from t obtain info' where "file_info names' d' = Inr info'" "''1000.jpg'' \<in> fst ` set info'"
    by blast
  moreover from t have "big_dir ''1000.jpg'' = None" "d' ''1000.jpg'' \<noteq> None"
    by blast+
  ultimately show ?thesis
    using big_listing big_file_info dm len run l' by blast
qed

end
